theory Spec2Isabelle
  imports Main "HOL-Library.Signed_Division" "HOL-Library.Multiset"
begin

section \<open>The batch dataset kernel (batch\_dataset\_op.cc)\<close>

text \<open>
  A shallow embedding of \<^verbatim>\<open>tensorflow/core/kernels/data/batch_dataset_op.cc\<close>:
  the class \<^verbatim>\<open>BatchDatasetOp::Dataset\<close>, its nested \<^verbatim>\<open>Iterator\<close> and
  \<^verbatim>\<open>BatchDatasetOp::MakeDataset\<close>. Objects mutated through pointers
  (\<^verbatim>\<open>input_impl_\<close>, \<^verbatim>\<open>*out_tensors\<close>, \<^verbatim>\<open>*end_of_sequence\<close>) are passed in and
  returned; the mutex \<^verbatim>\<open>mu_\<close> is not modelled (one call runs at a time). A call
  returns, throws a C++ exception, or is undefined in C++.
\<close>

subsection \<open>Tensors, shapes and statuses\<close>

type_synonym DataType = nat

text \<open>A \<^verbatim>\<open>TensorShape\<close> lists its dimension sizes; a \<^verbatim>\<open>PartialTensorShape\<close> of known
  rank lists them too, with \<open>-1\<close> for a dimension that is not known.\<close>

type_synonym TensorShape = "nat list"
type_synonym PartialTensorShape = "int list"

record Tensor =
  dtype :: DataType
  shape :: TensorShape
  flat :: "int list"

definition NumElements :: "TensorShape \<Rightarrow> nat" where
  "NumElements sh = prod_list sh"

text \<open>The arguments that \<^verbatim>\<open>errors::InvalidArgument(...)\<close> and its siblings concatenate
  into the message: string literals, integers, and \<^verbatim>\<open>TensorShape::DebugString()\<close> of a
  shape.\<close>

datatype MsgArg = Str string | Num nat | DebugString TensorShape

datatype Code = INVALID_ARGUMENT | RESOURCE_EXHAUSTED | INTERNAL | UNIMPLEMENTED
  | CANCELLED | UNKNOWN | OUT_OF_RANGE | DATA_LOSS

datatype Status = OK | Error Code "MsgArg list"

definition InvalidArgument :: "MsgArg list \<Rightarrow> Status" where
  "InvalidArgument args = Error INVALID_ARGUMENT args"

definition ResourceExhausted :: "MsgArg list \<Rightarrow> Status" where
  "ResourceExhausted args = Error RESOURCE_EXHAUSTED args"

text \<open>\<^verbatim>\<open>Status::Update\<close>: the first error is kept.\<close>

fun Update :: "Status \<Rightarrow> Status \<Rightarrow> Status" where
  "Update OK new_status = new_status"
| "Update (Error c m) new_status = Error c m"

subsection \<open>The collaborators\<close>

text \<open>The checkpoint that an \<^verbatim>\<open>IteratorStateWriter\<close> fills and an
  \<^verbatim>\<open>IteratorStateReader\<close> reads: values under string keys.\<close>

datatype CkptValue = ScalarStr string | ScalarInt int | TensorVal Tensor

type_synonym Checkpoint = "string \<rightharpoonup> CkptValue"

text \<open>The execution context: the allocator that \<^verbatim>\<open>ctx->allocator({})\<close> returns, as
  the buffer it hands out for a dtype and a number of elements (\<open>None\<close> when it cannot;
  the buffer is given by its contents at each offset, which the source does not
  initialise), and the \<^verbatim>\<open>ctx->runner()\<close> that runs the closures handed to it. Of the
  closure that copies index \<open>i\<close> of component \<open>c\<close>, \<open>runner ctx c i\<close> is the time at
  which it completes, and \<open>prompt ctx c i\<close> says whether it has completed when the loop
  over the indices is left (as it has with a runner that runs a closure in the calling
  thread, and has not with a pool that is busy).\<close>

record IteratorContext =
  allocator :: "DataType \<Rightarrow> nat \<Rightarrow> (nat \<Rightarrow> int) option"
  runner :: "nat \<Rightarrow> nat \<Rightarrow> nat"
  prompt :: "nat \<Rightarrow> nat \<Rightarrow> bool"

text \<open>The input dataset \<^verbatim>\<open>input_\<close> (a \<^verbatim>\<open>DatasetBase\<close>) and the iterator it makes
  (\<^verbatim>\<open>input_impl_\<close>, an \<^verbatim>\<open>IteratorBase\<close>), whose state has type \<open>'s\<close>:
  \<^verbatim>\<open>GetNext\<close> returns the status, the tuple written to \<^verbatim>\<open>out_tensors\<close> and
  \<^verbatim>\<open>*end_of_sequence\<close>, and the iterator's next state.\<close>

record 's DatasetBase =
  input_output_dtypes :: "DataType list"
  input_output_shapes :: "PartialTensorShape list"
  input_Cardinality :: int
  input_MakeIterator :: "IteratorContext \<Rightarrow> Status \<times> 's option"
  input_GetNext :: "IteratorContext \<Rightarrow> 's \<Rightarrow> (Status \<times> Tensor list \<times> bool) \<times> 's"
  input_Save :: "'s \<Rightarrow> Checkpoint \<Rightarrow> Status \<times> Checkpoint"
  input_Restore :: "IteratorContext \<Rightarrow> Checkpoint \<Rightarrow> 's \<Rightarrow> Status \<times> 's"

subsection \<open>The dataset\<close>

record 's Dataset =
  batch_size :: int
  drop_remainder :: bool
  parallel_copy :: bool
  input :: "'s DatasetBase"
  output_shapes :: "PartialTensorShape list"

text \<open>Modelled from the spec: \<^verbatim>\<open>PartialTensorShape::Concatenate\<close> is declared in
  \<^verbatim>\<open>framework/partial_tensor_shape.h\<close>, which is not under src/. The spec: the outer
  dimension comes first and the "remaining dims [are] unchanged from upstream". Shapes of
  unknown rank are not represented.\<close>

definition Concatenate :: "PartialTensorShape \<Rightarrow> PartialTensorShape \<Rightarrow> PartialTensorShape" where
  "Concatenate this other = this @ other"

text \<open>The constructor \<^verbatim>\<open>Dataset(ctx, batch_size, drop_remainder, parallel_copy, input,
  op_version)\<close>; its loop over \<^verbatim>\<open>input_shapes\<close> fills \<^verbatim>\<open>output_shapes_\<close>.\<close>

definition Dataset_ctor :: "int \<Rightarrow> bool \<Rightarrow> bool \<Rightarrow> 's DatasetBase \<Rightarrow> 's Dataset" where
  "Dataset_ctor bs dr pc inp =
     \<lparr>batch_size = bs, drop_remainder = dr, parallel_copy = pc, input = inp,
      output_shapes =
        map (\<lambda>input_shape.
               if dr then Concatenate [bs] input_shape
               else Concatenate [-1] input_shape)
            (input_output_shapes inp)\<rparr>"

definition output_dtypes :: "'s Dataset \<Rightarrow> DataType list" where
  "output_dtypes d = input_output_dtypes (input d)"

text \<open>\<^verbatim>\<open>BatchDatasetOp::MakeDataset\<close>, from the parsed scalar arguments:
  \<^verbatim>\<open>drop_remainder\<close> is read only when \<^verbatim>\<open>op_version_ > 1\<close>.\<close>

definition MakeDataset :: "nat \<Rightarrow> bool \<Rightarrow> int \<Rightarrow> bool \<Rightarrow> 's DatasetBase \<Rightarrow> Status + 's Dataset" where
  "MakeDataset op_version pc bs dr_arg inp =
     (if \<not> bs > 0 then Inl (InvalidArgument [Str ''Batch size must be greater than zero.''])
      else Inr (Dataset_ctor bs (if op_version > 1 then dr_arg else False) pc inp))"

text \<open>Modelled from the spec: \<^verbatim>\<open>kInfiniteCardinality\<close> and \<^verbatim>\<open>kUnknownCardinality\<close> are
  declared in \<^verbatim>\<open>framework/dataset.h\<close>, which is not under src/. The spec calls them
  "a sentinel for infinite/unknown"; the values are the framework's.\<close>

definition kInfiniteCardinality :: int where
  "kInfiniteCardinality = -1"

definition kUnknownCardinality :: int where
  "kUnknownCardinality = -2"

text \<open>A value of type \<^verbatim>\<open>int64\<close> after an arithmetic operation: two's complement on 64
  bits.\<close>

definition wrap64 :: "int \<Rightarrow> int" where
  "wrap64 k = signed_take_bit 63 k"

text \<open>\<^verbatim>\<open>Dataset::Cardinality\<close>. C++ \<^verbatim>\<open>/\<close> and \<^verbatim>\<open>%\<close> truncate towards zero
  (\<open>sdiv\<close>, \<open>smod\<close>).\<close>

definition Cardinality :: "'s Dataset \<Rightarrow> int" where
  "Cardinality d =
     (let n = input_Cardinality (input d) in
      if n = kInfiniteCardinality \<or> n = kUnknownCardinality then n
      else wrap64 (wrap64 (n sdiv batch_size d) +
                   (if n smod batch_size d = 0 \<or> drop_remainder d then 0 else 1)))"

subsection \<open>Copying an element into its slice\<close>

text \<open>Writing \<open>sz\<close> values of \<open>e\<close> into the buffer \<open>d\<close> from offset \<open>off\<close>; nothing
  outside the buffer is written.\<close>

definition write_slice :: "int list \<Rightarrow> nat \<Rightarrow> nat \<Rightarrow> int list \<Rightarrow> int list" where
  "write_slice d off sz e =
     map (\<lambda>p. if off \<le> p \<and> p < off + sz \<and> p - off < length e then e ! (p - off) else d ! p)
         [0..<length d]"

text \<open>Modelled from the spec: \<^verbatim>\<open>batch_util::CopyElementToSlice\<close> is defined in
  \<^verbatim>\<open>util/batch_util.cc\<close>, which is not under src/. The spec: "Move (not copy, when
  possible) value[i] into output container's slice i", and a copy can fail (the spec's
  "copy/shape error"). Which copies fail is the parameter \<open>chk\<close>, from the element, the
  shape of the container and the index; a failed copy writes nothing.\<close>

type_synonym copier = "Tensor \<Rightarrow> TensorShape \<Rightarrow> nat \<Rightarrow> Status"

definition CopyElementToSlice :: "copier \<Rightarrow> Tensor \<Rightarrow> Tensor \<Rightarrow> nat \<Rightarrow> Status \<times> Tensor" where
  "CopyElementToSlice chk element parent index =
     (case chk element (shape parent) index of
        OK \<Rightarrow>
          (let sz = NumElements (tl (shape parent)) in
           (OK, parent\<lparr>flat := write_slice (flat parent) (index * sz) sz (flat element)\<rparr>))
      | Error c m \<Rightarrow> (Error c m, parent))"

text \<open>Modelled from the spec: the constructor \<^verbatim>\<open>Tensor(allocator, dtype, shape)\<close> and
  \<^verbatim>\<open>Tensor::IsInitialized\<close> are declared in \<^verbatim>\<open>framework/tensor.h\<close>, which is not under
  src/. The spec: "Allocate one fresh output container [...]. Allocation failure
  \<Rightarrow> ResourceExhausted". The result is the tensor constructed and whether it is
  initialised.\<close>

definition Tensor_alloc ::
  "(DataType \<Rightarrow> nat \<Rightarrow> (nat \<Rightarrow> int) option) \<Rightarrow> DataType \<Rightarrow> TensorShape \<Rightarrow> Tensor \<times> bool" where
  "Tensor_alloc a dt sh =
     (case a dt (NumElements sh) of
        None \<Rightarrow> (\<lparr>dtype = dt, shape = sh, flat = []\<rparr>, False)
      | Some buf \<Rightarrow> (\<lparr>dtype = dt, shape = sh, flat = map buf [0..<NumElements sh]\<rparr>, True))"

subsection \<open>The iterator: \<^verbatim>\<open>GetNextInternal\<close>\<close>

text \<open>\<^verbatim>\<open>batch_elements[i][component_index]\<close>. Reading a \<^verbatim>\<open>std::vector\<close> out of range
  is undefined in C++: the functions below return \<open>None\<close> where the source does it.\<close>

definition element_at :: "Tensor list list \<Rightarrow> nat \<Rightarrow> nat \<Rightarrow> Tensor option" where
  "element_at batch_elements i component_index =
     (if i < length batch_elements \<and> component_index < length (batch_elements ! i)
      then Some (batch_elements ! i ! component_index) else None)"

text \<open>The loop that pulls from \<^verbatim>\<open>input_impl_\<close>, with \<open>k\<close> iterations left before
  \<^verbatim>\<open>i < batch_size_\<close> fails and the counter at \<open>i\<close>: the result is the status
  (\<^verbatim>\<open>TF_RETURN_IF_ERROR\<close> leaves the function with it), \<^verbatim>\<open>batch_elements\<close>,
  \<^verbatim>\<open>*end_of_sequence\<close> and \<^verbatim>\<open>input_impl_\<close>, which \<^verbatim>\<open>reset()\<close> empties. The counter
  is an \<^verbatim>\<open>int\<close>, compared with the \<^verbatim>\<open>int64\<close> \<^verbatim>\<open>batch_size_\<close>: \<^verbatim>\<open>++i\<close>, which
  follows every iteration that does not return, is undefined in C++ at \<open>2^31 - 1\<close>, and
  the result is \<open>None\<close> there.\<close>

fun pull ::
  "'s DatasetBase \<Rightarrow> IteratorContext \<Rightarrow> nat \<Rightarrow> int \<Rightarrow> 's \<Rightarrow> Tensor list list
     \<Rightarrow> (Status \<times> Tensor list list \<times> bool \<times> 's option) option" where
  "pull inp ctx 0 i s batch_elements = Some (OK, batch_elements, False, Some s)"
| "pull inp ctx (Suc k) i s batch_elements =
     (case input_GetNext inp ctx s of
        ((st, batch_element_tuple, eos), s') \<Rightarrow>
          if st \<noteq> OK then Some (st, batch_elements, eos, Some s')
          else if i = 2 ^ 31 - 1 then None
          else if \<not> eos then pull inp ctx k (i + 1) s' (batch_elements @ [batch_element_tuple])
          else Some (OK, batch_elements, True, None))"

text \<open>The locals of one component's copy: \<^verbatim>\<open>status\<close>, \<^verbatim>\<open>batch_component\<close> (the last
  tensor of \<^verbatim>\<open>*out_tensors\<close>) and the closures handed to the runner whose
  \<^verbatim>\<open>counter.DecrementCount()\<close> has not been awaited yet, by their index.\<close>

record copy_state =
  status :: Status
  batch_component :: Tensor
  scheduled :: "nat list"

text \<open>The lambda \<^verbatim>\<open>copy_element_fn\<close>, from what it captures (\<open>component\<close> is
  \<^verbatim>\<open>batch_component\<close>) and its argument.\<close>

definition copy_element_fn ::
  "copier \<Rightarrow> nat \<Rightarrow> Tensor list list \<Rightarrow> Tensor \<Rightarrow> nat \<Rightarrow> (Status \<times> Tensor) option" where
  "copy_element_fn chk component_index batch_elements component index =
     (case element_at batch_elements index component_index of
        None \<Rightarrow> None
      | Some element \<Rightarrow> Some (CopyElementToSlice chk element component index))"

text \<open>What both branches of the copy do with index \<open>i\<close>, at once or in the closure:
  \<^verbatim>\<open>status.Update(copy_element_fn(i)); counter.DecrementCount();\<close>\<close>

definition copy_task ::
  "copier \<Rightarrow> nat \<Rightarrow> Tensor list list \<Rightarrow> nat \<Rightarrow> copy_state \<Rightarrow> copy_state option" where
  "copy_task chk component_index batch_elements i st =
     (case copy_element_fn chk component_index batch_elements (batch_component st) i of
        None \<Rightarrow> None
      | Some (s, bc) \<Rightarrow> Some (st\<lparr>status := Update (status st) s, batch_component := bc\<rparr>))"

text \<open>The closures of a list of indices, run one after the other.\<close>

fun run_tasks ::
  "copier \<Rightarrow> nat \<Rightarrow> Tensor list list \<Rightarrow> nat list \<Rightarrow> copy_state \<Rightarrow> copy_state option" where
  "run_tasks chk component_index batch_elements [] st = Some st"
| "run_tasks chk component_index batch_elements (i # is) st =
     (case copy_task chk component_index batch_elements i st of
        None \<Rightarrow> None
      | Some st' \<Rightarrow> run_tasks chk component_index batch_elements is st')"

text \<open>\<^verbatim>\<open>counter.Wait()\<close>: the closures handed to the runner have all completed, in the
  order of their completion times (closures of equal time in the order handed over).
  Each writes its own slice of \<^verbatim>\<open>batch_component\<close> and updates \<^verbatim>\<open>status\<close> under
  \<^verbatim>\<open>status_mu\<close>, so running them one after the other in that order is what their
  concurrent execution does.\<close>

definition Wait ::
  "IteratorContext \<Rightarrow> copier \<Rightarrow> nat \<Rightarrow> Tensor list list \<Rightarrow> copy_state \<Rightarrow> copy_state option" where
  "Wait ctx chk component_index batch_elements st =
     run_tasks chk component_index batch_elements
       (sort_key (runner ctx component_index) (scheduled st))
       (st\<lparr>scheduled := []\<rparr>)"

text \<open>The loop \<^verbatim>\<open>for (size_t i = 0; i < num_batch_elements; ++i)\<close> over the indices
  left: \<open>Some err\<close> in the first component is the \<^verbatim>\<open>return errors::InvalidArgument\<close> in
  the loop, which leaves the function at once.\<close>

fun copy_loop ::
  "copier \<Rightarrow> bool \<Rightarrow> nat \<Rightarrow> Tensor list list \<Rightarrow> TensorShape \<Rightarrow> nat list \<Rightarrow> copy_state
     \<Rightarrow> (Status option \<times> copy_state) option" where
  "copy_loop chk par component_index batch_elements first_element_shape [] st = Some (None, st)"
| "copy_loop chk par component_index batch_elements first_element_shape (i # is) st =
     (case element_at batch_elements i component_index of
        None \<Rightarrow> None
      | Some element \<Rightarrow>
          if shape element \<noteq> first_element_shape then
            Some (Some (InvalidArgument
              [Str ''Cannot batch tensors with different shapes in component '',
               Num component_index, Str ''. First element had shape '',
               DebugString first_element_shape, Str '' and element '', Num i,
               Str '' had shape '', DebugString (shape element), Str ''.'']), st)
          else if par then
            copy_loop chk par component_index batch_elements first_element_shape is
              (st\<lparr>scheduled := scheduled st @ [i]\<rparr>)
          else
            (case copy_task chk component_index batch_elements i st of
               None \<Rightarrow> None
             | Some st' \<Rightarrow>
                 copy_loop chk par component_index batch_elements first_element_shape is st'))"

text \<open>What the assembly of a batch returns: the status, \<^verbatim>\<open>*out_tensors\<close>, and the
  closures that were handed to the runner and had neither been awaited nor completed
  when the function returned. They hold references to its locals (\<^verbatim>\<open>status\<close>,
  \<^verbatim>\<open>status_mu\<close>, \<^verbatim>\<open>counter\<close>, \<^verbatim>\<open>copy_element_fn\<close> and through it
  \<^verbatim>\<open>batch_elements\<close>), which are gone after the return.\<close>

record assembly =
  a_status :: Status
  a_out_tensors :: "Tensor list"
  a_unjoined :: "nat list"

text \<open>The body of the loop over \<^verbatim>\<open>component_index\<close>, for one component. At the
  \<^verbatim>\<open>return errors::InvalidArgument\<close> in the loop over the indices,
  \<^verbatim>\<open>counter.Wait()\<close> is not reached: the closures handed over so far that are prompt
  have run, the others are left with the runner.\<close>

definition copy_component ::
  "IteratorContext \<Rightarrow> copier \<Rightarrow> bool \<Rightarrow> Tensor list list \<Rightarrow> nat \<Rightarrow> Tensor list
     \<Rightarrow> assembly option" where
  "copy_component ctx chk par batch_elements component_index out_tensors =
     (case element_at batch_elements 0 component_index of
        None \<Rightarrow> None
      | Some first_element \<Rightarrow>
          (let num_batch_elements = length batch_elements;
               first_element_shape = shape first_element;
               batch_component_shape = num_batch_elements # first_element_shape;
               (t, initialized) =
                  Tensor_alloc (allocator ctx) (dtype first_element) batch_component_shape
           in if \<not> initialized then
                Some \<lparr>a_status = ResourceExhausted
                         [Str ''Failed to allocate memory for the batch of component '',
                          Num component_index],
                      a_out_tensors = out_tensors @ [t], a_unjoined = []\<rparr>
              else
                (case copy_loop chk par component_index batch_elements first_element_shape
                        [0..<num_batch_elements]
                        \<lparr>status = OK, batch_component = t, scheduled = []\<rparr> of
                   None \<Rightarrow> None
                 | Some (Some err, st) \<Rightarrow>
                     (case run_tasks chk component_index batch_elements
                             (sort_key (runner ctx component_index)
                                (filter (prompt ctx component_index) (scheduled st))) st of
                        None \<Rightarrow> None
                      | Some st' \<Rightarrow>
                          Some \<lparr>a_status = err,
                                a_out_tensors = out_tensors @ [batch_component st'],
                                a_unjoined =
                                  filter (\<lambda>i. \<not> prompt ctx component_index i)
                                    (scheduled st)\<rparr>)
                 | Some (None, st) \<Rightarrow>
                     (case Wait ctx chk component_index batch_elements st of
                        None \<Rightarrow> None
                      | Some st' \<Rightarrow>
                          Some \<lparr>a_status = status st',
                                a_out_tensors = out_tensors @ [batch_component st'],
                                a_unjoined = []\<rparr>))))"

text \<open>The loop over \<^verbatim>\<open>component_index\<close>: \<^verbatim>\<open>TF_RETURN_IF_ERROR(status)\<close> and the two
  \<^verbatim>\<open>return\<close>s in the body leave it.\<close>

fun copy_components ::
  "IteratorContext \<Rightarrow> copier \<Rightarrow> bool \<Rightarrow> Tensor list list \<Rightarrow> nat list \<Rightarrow> Tensor list
     \<Rightarrow> assembly option" where
  "copy_components ctx chk par batch_elements [] out_tensors =
     Some \<lparr>a_status = OK, a_out_tensors = out_tensors, a_unjoined = []\<rparr>"
| "copy_components ctx chk par batch_elements (component_index # cs) out_tensors =
     (case copy_component ctx chk par batch_elements component_index out_tensors of
        None \<Rightarrow> None
      | Some a \<Rightarrow>
          if a_status a \<noteq> OK then Some a
          else copy_components ctx chk par batch_elements cs (a_out_tensors a))"

text \<open>What \<^verbatim>\<open>GetNextInternal\<close> returns and leaves behind: the status,
  \<^verbatim>\<open>*out_tensors\<close>, \<^verbatim>\<open>*end_of_sequence\<close>, \<^verbatim>\<open>input_impl_\<close>, and the closures
  left with the runner at the return.\<close>

record 's GetNext_result =
  r_status :: Status
  r_out_tensors :: "Tensor list"
  r_end_of_sequence :: bool
  r_input_impl :: "'s option"
  r_unjoined :: "nat list"

text \<open>\<^verbatim>\<open>batch_elements.reserve(n)\<close> is \<^verbatim>\<open>std::vector::reserve\<close>: it throws
  \<^verbatim>\<open>std::length_error\<close> when \<open>n\<close> exceeds \<^verbatim>\<open>max_size()\<close> and \<^verbatim>\<open>std::bad_alloc\<close>
  when the host cannot provide the memory, and changes no value otherwise. What it does
  for each \<open>n\<close> on the host is a parameter of the model.\<close>

datatype exception = length_error | bad_alloc

type_synonym reserver = "int \<Rightarrow> exception option"

text \<open>What becomes of a call: it returns, it throws, or its behaviour is undefined in
  C++.\<close>

datatype 'a outcome = Returns 'a | Throws exception | Undefined

text \<open>\<^verbatim>\<open>Iterator::GetNextInternal(ctx, out_tensors, end_of_sequence)\<close> on an iterator
  whose \<^verbatim>\<open>input_impl_\<close> is \<open>input_impl\<close>. The argument of \<^verbatim>\<open>reserve\<close> is the
  \<^verbatim>\<open>int64\<close> \<^verbatim>\<open>batch_size_\<close> converted to \<^verbatim>\<open>size_t\<close>, and the comparison of
  \<^verbatim>\<open>batch_elements.size()\<close> with \<^verbatim>\<open>batch_size_\<close> is unsigned on 64 bits.
  \<^verbatim>\<open>DCHECK(*end_of_sequence)\<close> checks nothing in a release build and is left out. The
  other allocations of the standard library (a tuple, a slot of \<^verbatim>\<open>*out_tensors\<close>) are
  small and taken to succeed.\<close>

definition GetNextInternal ::
  "'s Dataset \<Rightarrow> copier \<Rightarrow> reserver \<Rightarrow> IteratorContext \<Rightarrow> Tensor list \<Rightarrow> 's option
     \<Rightarrow> 's GetNext_result outcome" where
  "GetNextInternal d chk rsv ctx out_tensors input_impl =
     (case input_impl of
        None \<Rightarrow>
          Returns \<lparr>r_status = OK, r_out_tensors = out_tensors, r_end_of_sequence = True,
                   r_input_impl = None, r_unjoined = []\<rparr>
      | Some s \<Rightarrow>
          (case rsv (batch_size d mod 2 ^ 64) of
             Some e \<Rightarrow> Throws e
           | None \<Rightarrow>
               (case pull (input d) ctx (nat (batch_size d)) 0 s [] of
                  None \<Rightarrow> Undefined
                | Some (st, batch_elements, eos, impl) \<Rightarrow>
                    if st \<noteq> OK then
                      Returns \<lparr>r_status = st, r_out_tensors = out_tensors,
                               r_end_of_sequence = eos, r_input_impl = impl,
                               r_unjoined = []\<rparr>
                    else if batch_elements = [] then
                      Returns \<lparr>r_status = OK, r_out_tensors = out_tensors,
                               r_end_of_sequence = eos, r_input_impl = impl,
                               r_unjoined = []\<rparr>
                    else if drop_remainder d \<and>
                            int (length batch_elements) mod 2 ^ 64 < batch_size d mod 2 ^ 64
                    then
                      Returns \<lparr>r_status = OK, r_out_tensors = out_tensors,
                               r_end_of_sequence = True, r_input_impl = impl,
                               r_unjoined = []\<rparr>
                    else
                      (case copy_components ctx chk (parallel_copy d) batch_elements
                              [0..<length (batch_elements ! 0)] out_tensors of
                         None \<Rightarrow> Undefined
                       | Some a \<Rightarrow>
                           if a_status a \<noteq> OK then
                             Returns \<lparr>r_status = a_status a,
                                      r_out_tensors = a_out_tensors a,
                                      r_end_of_sequence = eos, r_input_impl = impl,
                                      r_unjoined = a_unjoined a\<rparr>
                           else
                             Returns \<lparr>r_status = OK, r_out_tensors = a_out_tensors a,
                                      r_end_of_sequence = False, r_input_impl = impl,
                                      r_unjoined = []\<rparr>))))"

text \<open>Calls of \<^verbatim>\<open>GetNextInternal\<close> one after the other, each with its context and an
  empty \<^verbatim>\<open>out_tensors\<close>. A call that throws has left \<^verbatim>\<open>input_impl_\<close> as it was.
  After a call that is undefined nothing is defined; and when a call has returned with
  closures left with the runner, these run on locals that are gone, which is undefined
  too: the status of that call was fixed in the calling thread, and nothing after it is
  defined.\<close>

fun GetNext_calls ::
  "'s Dataset \<Rightarrow> copier \<Rightarrow> reserver \<Rightarrow> IteratorContext list \<Rightarrow> 's option
     \<Rightarrow> 's GetNext_result outcome list" where
  "GetNext_calls d chk rsv [] input_impl = []"
| "GetNext_calls d chk rsv (ctx # ctxs) input_impl =
     (case GetNextInternal d chk rsv ctx [] input_impl of
        Undefined \<Rightarrow> Undefined # map (\<lambda>ctx. Undefined) ctxs
      | Throws e \<Rightarrow> Throws e # GetNext_calls d chk rsv ctxs input_impl
      | Returns r \<Rightarrow>
          Returns r #
            (if r_unjoined r = [] then GetNext_calls d chk rsv ctxs (r_input_impl r)
             else map (\<lambda>ctx. Undefined) ctxs))"

subsection \<open>The iterator: \<^verbatim>\<open>SaveInternal\<close> and \<^verbatim>\<open>RestoreInternal\<close>\<close>

definition kInputImplEmpty :: string where
  "kInputImplEmpty = ''input_impl_empty''"

text \<open>Modelled from the spec: \<^verbatim>\<open>full_name\<close> is a method of the base class
  \<^verbatim>\<open>DatasetBaseIterator\<close> (\<^verbatim>\<open>framework/dataset.h\<close>, not under src/); it makes the key
  of this iterator for a name, from the iterator's prefix. The writer's
  \<^verbatim>\<open>WriteScalar\<close> and the reader's \<^verbatim>\<open>Contains\<close> (same header) store a value under a
  key and look a key up.\<close>

definition full_name :: "string \<Rightarrow> string \<Rightarrow> string" where
  "full_name prefix name = prefix @ '':'' @ name"

definition WriteScalar :: "string \<Rightarrow> string \<Rightarrow> Checkpoint \<Rightarrow> Status \<times> Checkpoint" where
  "WriteScalar key val writer = (OK, writer(key \<mapsto> ScalarStr val))"

definition Contains :: "Checkpoint \<Rightarrow> string \<Rightarrow> bool" where
  "Contains reader key = (reader key \<noteq> None)"

text \<open>\<^verbatim>\<open>SaveInternal(writer)\<close>: the status and the writer's contents.\<close>

definition SaveInternal ::
  "'s Dataset \<Rightarrow> string \<Rightarrow> Checkpoint \<Rightarrow> 's option \<Rightarrow> Status \<times> Checkpoint" where
  "SaveInternal d prefix writer input_impl =
     (case input_impl of
        None \<Rightarrow> WriteScalar (full_name prefix kInputImplEmpty) [] writer
      | Some s \<Rightarrow> input_Save (input d) s writer)"

text \<open>\<^verbatim>\<open>RestoreInternal(ctx, reader)\<close>: the status and \<^verbatim>\<open>input_impl_\<close>.
  \<^verbatim>\<open>RestoreInput\<close> calls \<^verbatim>\<open>Restore\<close> on \<^verbatim>\<open>input_impl_\<close>, which is undefined
  (\<open>None\<close>) when the pointer is null.\<close>

definition RestoreInternal ::
  "'s Dataset \<Rightarrow> string \<Rightarrow> IteratorContext \<Rightarrow> Checkpoint \<Rightarrow> 's option
     \<Rightarrow> (Status \<times> 's option) option" where
  "RestoreInternal d prefix ctx reader input_impl =
     (if \<not> Contains reader (full_name prefix kInputImplEmpty) then
        (case input_impl of
           None \<Rightarrow> None
         | Some s \<Rightarrow>
             (case input_Restore (input d) ctx reader s of
                (st, s') \<Rightarrow> Some (st, Some s')))
      else Some (OK, None))"

text \<open>\<^verbatim>\<open>Iterator::Initialize\<close>: the status and \<^verbatim>\<open>input_impl_\<close>.\<close>

definition Initialize :: "'s Dataset \<Rightarrow> IteratorContext \<Rightarrow> Status \<times> 's option" where
  "Initialize d ctx = input_MakeIterator (input d) ctx"

subsection \<open>What the specification speaks of\<close>

text \<open>The input iterator in state \<open>s\<close> yields exactly the elements \<open>xs\<close>, then signals the
  end of the sequence, without an error.\<close>

fun yields :: "'s DatasetBase \<Rightarrow> IteratorContext \<Rightarrow> 's \<Rightarrow> Tensor list list \<Rightarrow> bool" where
  "yields inp ctx s [] =
     (case input_GetNext inp ctx s of ((st, tuple, eos), s') \<Rightarrow> st = OK \<and> eos)"
| "yields inp ctx s (x # xs) =
     (case input_GetNext inp ctx s of
        ((st, tuple, eos), s') \<Rightarrow> st = OK \<and> \<not> eos \<and> tuple = x \<and> yields inp ctx s' xs)"

text \<open>The input iterator's state after \<open>k\<close> pulls from the state \<open>s\<close>, and the tuple
  that pull number \<open>k\<close> from \<open>s\<close> (counting from 0) gives.\<close>

fun input_state_after :: "'s DatasetBase \<Rightarrow> IteratorContext \<Rightarrow> nat \<Rightarrow> 's \<Rightarrow> 's" where
  "input_state_after inp ctx 0 s = s"
| "input_state_after inp ctx (Suc k) s =
     input_state_after inp ctx k (snd (input_GetNext inp ctx s))"


text \<open>The specification's batches of a sequence, by its words: the full batches of \<open>b\<close>
  consecutive elements, then the trailing partial batch unless it is empty or dropped.\<close>

fun spec_batches :: "nat \<Rightarrow> bool \<Rightarrow> nat \<Rightarrow> Tensor list list \<Rightarrow> Tensor list list list" where
  "spec_batches b dr 0 xs = []"
| "spec_batches b dr (Suc fuel) xs =
     (if xs = [] then []
      else if length xs < b then (if dr then [] else [xs])
      else take b xs # spec_batches b dr fuel (drop b xs))"

text \<open>The specification's batch of a list of elements: per slot, a container whose
  outer dimension is the number of elements, whose remaining dimensions are the slot's
  shape, and whose contents are the elements' values in order.\<close>

definition stacked_slot :: "Tensor list list \<Rightarrow> nat \<Rightarrow> Tensor" where
  "stacked_slot es c =
     \<lparr>dtype = dtype (hd es ! c), shape = length es # shape (hd es ! c),
      flat = concat (map (\<lambda>e. flat (e ! c)) es)\<rparr>"

definition stacked :: "Tensor list list \<Rightarrow> Tensor list" where
  "stacked es = map (stacked_slot es) [0..<length (hd es)]"

text \<open>A tensor holds as many values as its shape says.\<close>

definition well_formed :: "Tensor \<Rightarrow> bool" where
  "well_formed t = (length (flat t) = NumElements (shape t))"

text \<open>A batch assembles: for every slot of its first element the container can be
  allocated, and every element has the slot, with the shape that the first element has
  there, and its copy does not fail.\<close>

definition assembles :: "IteratorContext \<Rightarrow> copier \<Rightarrow> Tensor list list \<Rightarrow> bool" where
  "assembles ctx chk es =
     (\<forall>c \<in> set [0..<length (hd es)].
        \<not> Option.is_none
            (allocator ctx (dtype (hd es ! c)) (NumElements (length es # shape (hd es ! c)))) \<and>
        (\<forall>i \<in> set [0..<length es].
           c < length (es ! i) \<and> shape (es ! i ! c) = shape (hd es ! c) \<and>
           well_formed (es ! i ! c) \<and>
           chk (es ! i ! c) (length es # shape (hd es ! c)) i = OK))"

text \<open>What a call gives its caller, who reads the tensors only under an OK status:
  a batch, the end of the sequence, or a failure.\<close>

datatype emitted = Batch "Tensor list" | EndOfSequence | Failure

definition emit :: "'s GetNext_result \<Rightarrow> emitted" where
  "emit r =
     (if r_status r \<noteq> OK then Failure
      else if r_end_of_sequence r then EndOfSequence
      else Batch (r_out_tensors r))"

subsection \<open>Collaborators for the examples\<close>

text \<open>An input dataset over a fixed list of elements; its iterator's state is the
  position in the list, which it saves under a key of its own.\<close>

definition vector_input :: "Tensor list list \<Rightarrow> nat DatasetBase" where
  "vector_input xs =
     \<lparr>input_output_dtypes = map dtype (hd xs),
      input_output_shapes = map (\<lambda>t. map int (shape t)) (hd xs),
      input_Cardinality = int (length xs),
      input_MakeIterator = (\<lambda>ctx. (OK, Some 0)),
      input_GetNext = (\<lambda>ctx i. if i < length xs then ((OK, xs ! i, False), Suc i)
                               else ((OK, [], True), i)),
      input_Save = (\<lambda>i w. (OK, w(''input:position'' \<mapsto> ScalarInt (int i)))),
      input_Restore = (\<lambda>ctx r i. case r ''input:position'' of
                                    Some (ScalarInt k) \<Rightarrow> (OK, nat k)
                                  | _ \<Rightarrow> (Error DATA_LOSS [Str ''no position''], i))\<rparr>"

text \<open>A tensor of dtype 1 with the given shape and values.\<close>

definition tensor :: "TensorShape \<Rightarrow> int list \<Rightarrow> Tensor" where
  "tensor sh vs = \<lparr>dtype = 1, shape = sh, flat = vs\<rparr>"

text \<open>Contexts: one whose allocator hands out zeroed buffers and whose runner completes
  the closures in the order given, one whose runner completes them in the reverse order
  (up to a thousand of them), one whose allocator fails; their runners complete no
  closure before the loop over the indices is left. One whose runner runs each closure in
  the calling thread. A copier that never fails and one that always fails.\<close>

definition ctx_ok :: IteratorContext where
  "ctx_ok = \<lparr>allocator = (\<lambda>dt n. Some (\<lambda>p. 0)), runner = (\<lambda>c i. i),
             prompt = (\<lambda>c i. False)\<rparr>"

definition ctx_rev :: IteratorContext where
  "ctx_rev = \<lparr>allocator = (\<lambda>dt n. Some (\<lambda>p. 0)), runner = (\<lambda>c i. 1000 - i),
              prompt = (\<lambda>c i. False)\<rparr>"

definition ctx_oom :: IteratorContext where
  "ctx_oom = \<lparr>allocator = (\<lambda>dt n. None), runner = (\<lambda>c i. i), prompt = (\<lambda>c i. False)\<rparr>"

definition ctx_inline :: IteratorContext where
  "ctx_inline = \<lparr>allocator = (\<lambda>dt n. Some (\<lambda>p. 0)), runner = (\<lambda>c i. i),
                 prompt = (\<lambda>c i. True)\<rparr>"

definition copy_ok :: copier where
  "copy_ok element parent_shape index = OK"

definition copy_fails :: copier where
  "copy_fails element parent_shape index = Error UNIMPLEMENTED [Str ''Unhandled data type'']"

text \<open>\<^verbatim>\<open>std::vector::reserve\<close> on a host with memory for \<open>capacity\<close> tuples:
  \<^verbatim>\<open>max_size()\<close> is that of a 64-bit standard library for the 24 bytes of a
  \<^verbatim>\<open>std::vector<Tensor>\<close>.\<close>

definition vector_reserve :: "int \<Rightarrow> reserver" where
  "vector_reserve capacity n =
     (if n > (2 ^ 63 - 1) div 24 then Some length_error
      else if n > capacity then Some bad_alloc
      else None)"

definition reserve_ok :: reserver where
  "reserve_ok = vector_reserve (2 ^ 20)"

text \<open>Sequences of elements: three elements of one slot with shapes (2,3), (2,3) and (2,4);
  seven elements of two slots; two elements of two slots whose shapes both differ.\<close>

definition elements3 :: "Tensor list list" where
  "elements3 =
     [[tensor [2, 3] [1, 2, 3, 4, 5, 6]], [tensor [2, 3] [7, 8, 9, 10, 11, 12]],
      [tensor [2, 4] [1, 2, 3, 4, 5, 6, 7, 8]]]"

definition elements7 :: "Tensor list list" where
  "elements7 = map (\<lambda>k. [tensor [2] [k, k + 1], tensor [] [k]]) [1, 2, 3, 4, 5, 6, 7]"

definition elements2 :: "Tensor list list" where
  "elements2 = [[tensor [2] [1, 2], tensor [1] [3]], [tensor [3] [4, 5, 6], tensor [2] [7, 8]]]"

subsection \<open>Notions for the proofs\<close>

text \<open>What the closure for index \<open>i\<close> of a component does to the buffer of the
  container of shape \<open>sh\<close> and what it reports, given that its element is there.\<close>

definition slot_write ::
  "copier \<Rightarrow> nat \<Rightarrow> Tensor list list \<Rightarrow> TensorShape \<Rightarrow> nat \<Rightarrow> int list \<Rightarrow> int list" where
  "slot_write chk ci elems sh i d =
     (if chk (elems ! i ! ci) sh i = OK
      then write_slice d (i * NumElements (tl sh)) (NumElements (tl sh)) (flat (elems ! i ! ci))
      else d)"

definition slot_status :: "copier \<Rightarrow> nat \<Rightarrow> Tensor list list \<Rightarrow> TensorShape \<Rightarrow> nat \<Rightarrow> Status" where
  "slot_status chk ci elems sh i = chk (elems ! i ! ci) sh i"

text \<open>The element at index \<open>i\<close> has the component and the component has the shape.\<close>

definition fits :: "Tensor list list \<Rightarrow> nat \<Rightarrow> TensorShape \<Rightarrow> nat \<Rightarrow> bool" where
  "fits elems ci fs i = (\<exists>e. element_at elems i ci = Some e \<and> shape e = fs)"

text \<open>The status of the \<^verbatim>\<open>return\<close> in the copy loop, and what an assembly delivers to a
  caller who reads the tensors only under an OK status.\<close>

definition mismatch :: "nat \<Rightarrow> TensorShape \<Rightarrow> nat \<Rightarrow> TensorShape \<Rightarrow> Status" where
  "mismatch ci fs i sh =
     InvalidArgument
       [Str ''Cannot batch tensors with different shapes in component '',
        Num ci, Str ''. First element had shape '',
        DebugString fs, Str '' and element '', Num i,
        Str '' had shape '', DebugString sh, Str ''.'']"

definition delivered :: "assembly \<Rightarrow> Tensor list option" where
  "delivered a = (if a_status a = OK then Some (a_out_tensors a) else None)"


definition elements5 :: "Tensor list list" where
  "elements5 =
     [[tensor [2] [1, 2]], [tensor [2] [3, 4]], [tensor [3] [5, 6, 7]],
      [tensor [3] [8, 9, 10]], [tensor [3] [11, 12, 13]]]"

section \<open>The dataset: cardinality, shapes and types\<close>

lemma sdiv_nonneg: "0 \<le> n \<Longrightarrow> 0 < b \<Longrightarrow> (n::int) sdiv b = n div b"
  by (simp add: signed_divide_int_def sgn_if)

lemma smod_nonneg: "0 \<le> n \<Longrightarrow> 0 < b \<Longrightarrow> (n::int) smod b = n mod b"
  by (simp add: smod_mod_positive)

lemma wrap64_id: "- (2 ^ 63) \<le> k \<Longrightarrow> k < 2 ^ 63 \<Longrightarrow> wrap64 k = k"
  unfolding wrap64_def by (simp add: signed_take_bit_int_eq_self)

text \<open>
  C1. A sentinel cardinality of the input (infinite or unknown) is returned unchanged. For
  a finite cardinality \<open>n\<close> of the input (a non-negative \<^verbatim>\<open>int64\<close>) and a batch size
  \<open>b > 0\<close>, \<^verbatim>\<open>Cardinality()\<close> is \<open>\<lfloor>n/b\<rfloor>\<close>, plus one when \<open>n mod b \<noteq> 0\<close> and
  \<^verbatim>\<open>drop_remainder\<close> is false; the 64-bit arithmetic of the source does not wrap there.
\<close>

theorem Cardinality_batches:
  fixes d :: "'s Dataset"
  defines "n \<equiv> input_Cardinality (input d)" and "b \<equiv> batch_size d"
  shows "(n = kInfiniteCardinality \<or> n = kUnknownCardinality \<longrightarrow> Cardinality d = n) \<and>
         (0 \<le> n \<and> n < 2 ^ 63 \<and> 0 < b \<longrightarrow>
            Cardinality d = n div b + (if n mod b \<noteq> 0 \<and> \<not> drop_remainder d then 1 else 0))"
proof (intro conjI impI)
  assume "n = kInfiniteCardinality \<or> n = kUnknownCardinality"
  then show "Cardinality d = n"
    by (auto simp: Cardinality_def n_def Let_def)
next
  assume h: "0 \<le> n \<and> n < 2 ^ 63 \<and> 0 < b"
  then have fin: "n \<noteq> kInfiniteCardinality" "n \<noteq> kUnknownCardinality"
    by (auto simp: kInfiniteCardinality_def kUnknownCardinality_def)
  have q: "0 \<le> n div b" "n div b \<le> n"
  proof -
    show "0 \<le> n div b" using h by (simp add: pos_imp_zdiv_nonneg_iff)
    have "n div b \<le> n div 1" using h by (intro zdiv_mono2) auto
    then show "n div b \<le> n" by simp
  qed
  have q1: "n div b + 1 < 2 ^ 63" if m: "n mod b \<noteq> 0"
  proof -
    from m have "b \<noteq> 1" by auto
    with h have "2 \<le> b" by simp
    have "n \<noteq> 0" using m by auto
    with h have "0 < n" by simp
    then have "n div b < n" using \<open>2 \<le> b\<close> by (simp add: int_div_less_self)
    with h show ?thesis by simp
  qed
  show "Cardinality d = n div b + (if n mod b \<noteq> 0 \<and> \<not> drop_remainder d then 1 else 0)"
    using h fin q q1
    by (auto simp: Cardinality_def Let_def n_def[symmetric] b_def[symmetric]
        sdiv_nonneg smod_nonneg wrap64_id)
qed

text \<open>The specification's examples: 10 elements in batches of 3 are 4 batches, 3 when the
  remainder is dropped; an infinite input stays infinite.\<close>

theorem Cardinality_batches_witness:
  "Cardinality (Dataset_ctor 3 False False
      ((vector_input elements7)\<lparr>input_Cardinality := 10\<rparr>)) = 4 \<and>
   Cardinality (Dataset_ctor 3 True False
      ((vector_input elements7)\<lparr>input_Cardinality := 10\<rparr>)) = 3 \<and>
   Cardinality (Dataset_ctor 3 False False
      ((vector_input elements7)\<lparr>input_Cardinality := kInfiniteCardinality\<rparr>))
     = kInfiniteCardinality"
  using
    Cardinality_batches [of "Dataset_ctor 3 False False
      ((vector_input elements7)\<lparr>input_Cardinality := 10\<rparr>)"]
    Cardinality_batches [of "Dataset_ctor 3 True False
      ((vector_input elements7)\<lparr>input_Cardinality := 10\<rparr>)"]
    Cardinality_batches [of "Dataset_ctor 3 False False
      ((vector_input elements7)\<lparr>input_Cardinality := kInfiniteCardinality\<rparr>)"]
  by (simp add: Dataset_ctor_def)

text \<open>
  C9. \<^verbatim>\<open>output_shapes()\<close> is, per slot of the input, the input's shape behind one
  outer dimension, which is \<^verbatim>\<open>batch_size\<close> when \<^verbatim>\<open>drop_remainder\<close> is true and
  unknown (\<open>-1\<close>) otherwise; \<^verbatim>\<open>output_dtypes()\<close> is the input's.
\<close>

theorem output_shapes_and_dtypes:
  "output_shapes (Dataset_ctor bs dr pc inp) =
     map (\<lambda>input_shape. (if dr then bs else -1) # input_shape) (input_output_shapes inp) \<and>
   output_dtypes (Dataset_ctor bs dr pc inp) = input_output_dtypes inp"
  by (auto simp: Dataset_ctor_def output_dtypes_def Concatenate_def)

section \<open>The iterator: exhaustion\<close>

lemma pull_eos_resets:
  "pull inp ctx k i s acc = Some (OK, elems, True, impl) \<Longrightarrow> impl = None"
  by (induction k arbitrary: i s acc) (auto split: prod.splits if_splits)

lemma pull_no_eos_length:
  "pull inp ctx k i s acc = Some (OK, elems, False, impl) \<Longrightarrow> length elems = length acc + k"
  by (induction k arbitrary: i s acc) (auto split: prod.splits if_splits)

lemma GetNextInternal_pull:
  assumes "GetNextInternal d chk rsv ctx out (Some s) = Returns r"
  obtains st elems eos impl' where
    "pull (input d) ctx (nat (batch_size d)) 0 s [] = Some (st, elems, eos, impl')"
  using assms
  by (cases "pull (input d) ctx (nat (batch_size d)) 0 s []")
     (auto simp: GetNextInternal_def split: option.splits)

lemma GetNextInternal_exhausted:
  "GetNextInternal d chk rsv ctx out None =
     Returns \<lparr>r_status = OK, r_out_tensors = out, r_end_of_sequence = True,
           r_input_impl = None, r_unjoined = []\<rparr>"
  by (simp add: GetNextInternal_def)

lemma GetNext_calls_exhausted:
  "GetNext_calls d chk rsv ctxs None =
     map (\<lambda>ctx. Returns \<lparr>r_status = OK, r_out_tensors = [], r_end_of_sequence = True,
                      r_input_impl = None, r_unjoined = []\<rparr>) ctxs"
  by (induction ctxs) (simp_all add: GetNextInternal_exhausted)

lemma eos_call_resets:
  assumes "GetNextInternal d chk rsv ctx out impl = Returns r"
    and "r_status r = OK" and "r_end_of_sequence r"
  shows "r_input_impl r = None"
proof (cases impl)
  case None
  with assms show ?thesis by (auto simp: GetNextInternal_def)
next
  case (Some s)
  from assms(1) Some obtain st elems eos impl' where
    p: "pull (input d) ctx (nat (batch_size d)) 0 s [] = Some (st, elems, eos, impl')"
    by (auto elim: GetNextInternal_pull)
  show ?thesis
  proof (cases eos)
    case True
    with assms Some p have "st = OK" "r_input_impl r = impl'"
      by (auto simp: GetNextInternal_def split: if_splits option.splits)
    with p True show ?thesis using pull_eos_resets by metis
  next
    case False
    with assms Some p have "st = OK"
      by (auto simp: GetNextInternal_def split: if_splits option.splits)
    with p False have len: "length elems = nat (batch_size d)"
      using pull_no_eos_length by fastforce
    have "\<not> int (length elems) mod 2 ^ 64 < batch_size d mod 2 ^ 64" if "elems \<noteq> []"
    proof -
      from that len have "0 < nat (batch_size d)" by (cases elems) auto
      with len have "int (length elems) = batch_size d" by simp
      then show ?thesis by simp
    qed
    with assms Some p False show ?thesis
      by (auto simp: GetNextInternal_def split: if_splits option.splits)
  qed
qed

text \<open>
  C6. Once a call has returned OK with \<^verbatim>\<open>end_of_sequence = true\<close>, \<^verbatim>\<open>input_impl_\<close> is
  absent, and every later call, whatever its context, returns OK with
  \<^verbatim>\<open>end_of_sequence = true\<close>, no tensors, and \<^verbatim>\<open>input_impl_\<close> still absent. The later
  calls do not pull: their results are the same for any dataset \<open>d'\<close>, so for any input.
\<close>

theorem exhausted_is_terminal:
  assumes "GetNextInternal d chk rsv ctx out impl = Returns r"
    and "r_status r = OK" and "r_end_of_sequence r"
  shows "r_input_impl r = None \<and>
         (\<forall>d' chk' rsv' ctxs.
            GetNext_calls (d' :: 's Dataset) chk' rsv' ctxs (r_input_impl r) =
            map (\<lambda>ctx. Returns \<lparr>r_status = OK, r_out_tensors = [], r_end_of_sequence = True,
                             r_input_impl = None, r_unjoined = []\<rparr>) ctxs)"
  using eos_call_resets[OF assms] by (simp add: GetNext_calls_exhausted)

text \<open>Seven elements in batches of three, the remainder dropped: the third call, at
  position 6, pulls the last element and the end of the sequence, and two more calls
  find the iterator exhausted.\<close>

theorem exhausted_is_terminal_witness:
  "GetNextInternal (Dataset_ctor 3 True False (vector_input elements7)) copy_ok reserve_ok
      ctx_ok [] (Some 6) =
     Returns \<lparr>r_status = OK, r_out_tensors = [], r_end_of_sequence = True,
              r_input_impl = None, r_unjoined = []\<rparr> \<and>
   GetNext_calls (Dataset_ctor 3 True False (vector_input elements7)) copy_ok reserve_ok
      [ctx_ok, ctx_oom] None =
     [Returns \<lparr>r_status = OK, r_out_tensors = [], r_end_of_sequence = True,
            r_input_impl = None, r_unjoined = []\<rparr>,
      Returns \<lparr>r_status = OK, r_out_tensors = [], r_end_of_sequence = True,
            r_input_impl = None, r_unjoined = []\<rparr>]"
proof -
  have call: "GetNextInternal (Dataset_ctor 3 True False (vector_input elements7)) copy_ok
      reserve_ok ctx_ok [] (Some 6) =
     Returns \<lparr>r_status = OK, r_out_tensors = [], r_end_of_sequence = True,
              r_input_impl = None, r_unjoined = []\<rparr>"
    by code_simp
  from exhausted_is_terminal [OF call] call show ?thesis
    by simp
qed

section \<open>The assembly of a batch\<close>

subsection \<open>Writing slices\<close>

lemma write_slice_length [simp]: "length (write_slice d off sz e) = length d"
  by (simp add: write_slice_def)

lemma write_slice_nth:
  "p < length d \<Longrightarrow> write_slice d off sz e ! p =
     (if off \<le> p \<and> p < off + sz \<and> p - off < length e then e ! (p - off) else d ! p)"
  by (simp add: write_slice_def)

lemma slice_disjoint:
  fixes i j sz p :: nat
  assumes "i \<noteq> j" "i * sz \<le> p" "p < i * sz + sz"
  shows "\<not> (j * sz \<le> p \<and> p < j * sz + sz)"
proof
  assume a: "j * sz \<le> p \<and> p < j * sz + sz"
  show False
  proof (cases "i < j")
    case True
    then have "Suc i \<le> j" by simp
    then have "Suc i * sz \<le> j * sz" by (rule mult_le_mono1)
    with assms a show False by simp
  next
    case False
    with assms have "Suc j \<le> i" by simp
    then have "Suc j * sz \<le> i * sz" by (rule mult_le_mono1)
    with assms a show False by simp
  qed
qed

lemma write_slice_commute:
  assumes "i \<noteq> j"
  shows "write_slice (write_slice d (i * sz) sz a) (j * sz) sz b =
         write_slice (write_slice d (j * sz) sz b) (i * sz) sz a"
proof (rule nth_equalityI)
  show "length (write_slice (write_slice d (i * sz) sz a) (j * sz) sz b) =
        length (write_slice (write_slice d (j * sz) sz b) (i * sz) sz a)" by simp
next
  fix p assume "p < length (write_slice (write_slice d (i * sz) sz a) (j * sz) sz b)"
  then have p: "p < length d" by simp
  show "write_slice (write_slice d (i * sz) sz a) (j * sz) sz b ! p =
        write_slice (write_slice d (j * sz) sz b) (i * sz) sz a ! p"
    using p slice_disjoint[OF assms, of sz p] slice_disjoint[OF assms[symmetric], of sz p]
    by (auto simp: write_slice_nth)
qed

lemma slot_write_commute:
  "slot_write chk ci elems sh i \<circ> slot_write chk ci elems sh j =
   slot_write chk ci elems sh j \<circ> slot_write chk ci elems sh i"
proof (cases "i = j")
  case True then show ?thesis by simp
next
  case False
  then show ?thesis
    by (auto simp: slot_write_def fun_eq_iff write_slice_commute)
qed

lemma slot_write_sorted:
  "fold (slot_write chk ci elems sh) (sort_key k is) = fold (slot_write chk ci elems sh) is"
  by (rule fold_multiset_equiv) (simp_all add: slot_write_commute)

lemma fold_Update_OK:
  "fold (\<lambda>i s. Update s (f i)) is st = OK \<longleftrightarrow> st = OK \<and> (\<forall>i \<in> set is. f i = OK)"
proof (induction "is" arbitrary: st)
  case Nil then show ?case by simp
next
  case (Cons i "is")
  show ?case by (cases st) (auto simp: Cons.IH)
qed

lemma copy_task_eq:
  assumes "element_at elems i ci = Some e"
  shows "copy_task chk ci elems i st =
     Some (st\<lparr>status := Update (status st) (slot_status chk ci elems (shape (batch_component st)) i),
              batch_component := (batch_component st)
                \<lparr>flat := slot_write chk ci elems (shape (batch_component st)) i
                           (flat (batch_component st))\<rparr>\<rparr>)"
proof -
  from assms have e: "e = elems ! i ! ci"
    by (auto simp: element_at_def split: if_splits)
  show ?thesis
    using assms unfolding e
    by (cases "chk (elems ! i ! ci) (shape (batch_component st)) i")
       (simp_all add: copy_task_def copy_element_fn_def CopyElementToSlice_def
          slot_status_def slot_write_def Let_def)
qed

lemma run_tasks_eq:
  assumes "\<forall>i \<in> set is. element_at elems i ci \<noteq> None"
  shows "run_tasks chk ci elems is st =
     Some (st\<lparr>status := fold (\<lambda>i s. Update s (slot_status chk ci elems (shape (batch_component st)) i)) is (status st),
              batch_component := (batch_component st)
                \<lparr>flat := fold (slot_write chk ci elems (shape (batch_component st))) is
                           (flat (batch_component st))\<rparr>\<rparr>)"
  using assms
proof (induction "is" arbitrary: st)
  case Nil then show ?case by simp
next
  case (Cons i "is")
  from Cons.prems obtain e where e: "element_at elems i ci = Some e" by auto
  define st1 where "st1 = st\<lparr>status := Update (status st) (slot_status chk ci elems (shape (batch_component st)) i),
              batch_component := (batch_component st)
                \<lparr>flat := slot_write chk ci elems (shape (batch_component st)) i
                           (flat (batch_component st))\<rparr>\<rparr>"
  have t: "copy_task chk ci elems i st = Some st1"
    unfolding st1_def by (rule copy_task_eq[OF e])
  have sh: "shape (batch_component st1) = shape (batch_component st)"
    by (simp add: st1_def)
  have "\<forall>i \<in> set is. element_at elems i ci \<noteq> None" using Cons.prems by simp
  from Cons.IH[OF this, of st1] have
    "run_tasks chk ci elems is st1 =
       Some (st1\<lparr>status := fold (\<lambda>i s. Update s (slot_status chk ci elems (shape (batch_component st)) i)) is (status st1),
              batch_component := (batch_component st1)
                \<lparr>flat := fold (slot_write chk ci elems (shape (batch_component st))) is
                           (flat (batch_component st1))\<rparr>\<rparr>)"
    unfolding sh .
  then have "run_tasks chk ci elems (i # is) st =
       Some (st1\<lparr>status := fold (\<lambda>i s. Update s (slot_status chk ci elems (shape (batch_component st)) i)) is (status st1),
              batch_component := (batch_component st1)
                \<lparr>flat := fold (slot_write chk ci elems (shape (batch_component st))) is
                           (flat (batch_component st1))\<rparr>\<rparr>)"
    by (simp only: run_tasks.simps t option.case)
  also have "\<dots> = Some (st\<lparr>status := fold (\<lambda>i s. Update s (slot_status chk ci elems (shape (batch_component st)) i)) (i # is) (status st),
              batch_component := (batch_component st)
                \<lparr>flat := fold (slot_write chk ci elems (shape (batch_component st))) (i # is)
                           (flat (batch_component st))\<rparr>\<rparr>)"
    by (simp add: st1_def)
  finally show ?case .
qed


lemma fitsD: "fits elems ci fs i \<Longrightarrow> element_at elems i ci = Some (elems ! i ! ci) \<and> shape (elems ! i ! ci) = fs"
  by (auto simp: fits_def element_at_def split: if_splits)

lemma fits_element: "fits elems ci fs i \<Longrightarrow> element_at elems i ci \<noteq> None"
  by (auto simp: fits_def)

lemma copy_loop_par_fits:
  "\<forall>i \<in> set is. fits elems ci fs i \<Longrightarrow>
   copy_loop chk True ci elems fs is st = Some (None, st\<lparr>scheduled := scheduled st @ is\<rparr>)"
proof (induction "is" arbitrary: st)
  case Nil then show ?case by simp
next
  case (Cons i "is")
  from Cons.prems have f: "element_at elems i ci = Some (elems ! i ! ci)" "shape (elems ! i ! ci) = fs"
    using fitsD by auto
  from Cons.prems have "\<forall>i \<in> set is. fits elems ci fs i" by simp
  from Cons.IH[OF this] show ?case by (simp add: f)
qed

lemma copy_loop_seq_fits:
  "\<forall>i \<in> set is. fits elems ci fs i \<Longrightarrow>
   copy_loop chk False ci elems fs is st =
     (case run_tasks chk ci elems is st of None \<Rightarrow> None | Some st' \<Rightarrow> Some (None, st'))"
proof (induction "is" arbitrary: st)
  case Nil then show ?case by simp
next
  case (Cons i "is")
  from Cons.prems have f: "element_at elems i ci = Some (elems ! i ! ci)" "shape (elems ! i ! ci) = fs"
    using fitsD by auto
  from Cons.prems have "\<forall>i \<in> set is. fits elems ci fs i" by simp
  from Cons.IH[OF this] show ?case by (simp add: f split: option.splits)
qed

lemma copy_loop_par_mismatch:
  assumes "\<forall>i \<in> set pre. fits elems ci fs i"
    and "element_at elems j ci = Some e" and "shape e \<noteq> fs"
  shows "copy_loop chk True ci elems fs (pre @ j # post) st =
           Some (Some (mismatch ci fs j (shape e)), st\<lparr>scheduled := scheduled st @ pre\<rparr>)"
  using assms(1)
proof (induction pre arbitrary: st)
  case Nil then show ?case using assms(2,3) by (simp add: mismatch_def)
next
  case (Cons i pre)
  from Cons.prems have f: "element_at elems i ci = Some (elems ! i ! ci)" "shape (elems ! i ! ci) = fs"
    using fitsD by auto
  from Cons.prems have "\<forall>i \<in> set pre. fits elems ci fs i" by simp
  from Cons.IH[OF this] show ?case by (simp add: f)
qed

lemma copy_loop_seq_mismatch:
  assumes "\<forall>i \<in> set pre. fits elems ci fs i"
    and "element_at elems j ci = Some e" and "shape e \<noteq> fs"
  shows "copy_loop chk False ci elems fs (pre @ j # post) st =
           (case run_tasks chk ci elems pre st of None \<Rightarrow> None
            | Some st' \<Rightarrow> Some (Some (mismatch ci fs j (shape e)), st'))"
  using assms(1)
proof (induction pre arbitrary: st)
  case Nil then show ?case using assms(2,3) by (simp add: mismatch_def)
next
  case (Cons i pre)
  from Cons.prems have f: "element_at elems i ci = Some (elems ! i ! ci)" "shape (elems ! i ! ci) = fs"
    using fitsD by auto
  from Cons.prems have "\<forall>i \<in> set pre. fits elems ci fs i" by simp
  from Cons.IH[OF this] show ?case by (simp add: f split: option.splits)
qed

lemma copy_loop_absent:
  assumes "\<forall>i \<in> set pre. fits elems ci fs i" and "element_at elems j ci = None"
  shows "copy_loop chk par ci elems fs (pre @ j # post) st = None"
  using assms(1)
proof (induction pre arbitrary: st)
  case Nil then show ?case using assms(2) by simp
next
  case (Cons i pre)
  from Cons.prems have f: "element_at elems i ci = Some (elems ! i ! ci)" "shape (elems ! i ! ci) = fs"
    using fitsD by auto
  from Cons.prems have p: "\<forall>i \<in> set pre. fits elems ci fs i" by simp
  have "copy_task chk ci elems i st \<noteq> None"
    by (simp add: copy_task_eq[OF f(1)])
  then show ?case using Cons.IH[OF p] by (auto simp: f)
qed

lemma run_tasks_fits:
  assumes "\<forall>i \<in> set is. fits elems ci fs i"
  shows "run_tasks chk ci elems is st =
     Some (st\<lparr>status := fold (\<lambda>i s. Update s (slot_status chk ci elems (shape (batch_component st)) i)) is (status st),
              batch_component := (batch_component st)
                \<lparr>flat := fold (slot_write chk ci elems (shape (batch_component st))) is
                           (flat (batch_component st))\<rparr>\<rparr>)"
  by (rule run_tasks_eq) (use assms fits_element in blast)


subsection \<open>One component\<close>

lemma Wait_nothing: "scheduled st = [] \<Longrightarrow> Wait ctx chk ci elems st = Some st"
  by (simp add: Wait_def)

lemma copy_component_fits:
  assumes first: "element_at elems 0 ci = Some first"
    and alloc: "allocator ctx (dtype first) (NumElements (length elems # shape first)) = Some buf"
    and fits: "\<forall>i \<in> set [0..<length elems]. fits elems ci (shape first) i"
  shows "\<exists>stt. copy_component ctx chk par elems ci out =
           Some \<lparr>a_status = stt,
                 a_out_tensors = out @
                   [\<lparr>dtype = dtype first, shape = length elems # shape first,
                     flat = fold (slot_write chk ci elems (length elems # shape first))
                              [0..<length elems]
                              (map buf [0..<NumElements (length elems # shape first)])\<rparr>],
                 a_unjoined = []\<rparr> \<and>
         (stt = OK \<longleftrightarrow>
            (\<forall>i < length elems. slot_status chk ci elems (length elems # shape first) i = OK))"
proof -
  define n where "n = length elems"
  define bs where "bs = n # shape first"
  define t0 where "t0 = \<lparr>dtype = dtype first, shape = bs, flat = map buf [0..<NumElements bs]\<rparr>"
  define st0 where "st0 = \<lparr>status = OK, batch_component = t0, scheduled = []\<rparr>"
  have al: "Tensor_alloc (allocator ctx) (dtype first) bs = (t0, True)"
    using alloc by (simp add: Tensor_alloc_def t0_def bs_def n_def)
  have sh0: "shape (batch_component st0) = bs" by (simp add: st0_def t0_def)
  have sch0: "scheduled st0 = []" "status st0 = OK" "batch_component st0 = t0" "shape t0 = bs"
    by (simp_all add: st0_def t0_def)
  have fits': "\<forall>i \<in> set [0..<n]. fits elems ci (shape first) i" using fits by (simp add: n_def)
  have unfold: "copy_component ctx chk par elems ci out =
      (case copy_loop chk par ci elems (shape first) [0..<n] st0 of
         None \<Rightarrow> None
       | Some (Some err, st) \<Rightarrow>
           (case run_tasks chk ci elems
                   (sort_key (runner ctx ci) (filter (prompt ctx ci) (scheduled st))) st of
              None \<Rightarrow> None
            | Some st' \<Rightarrow>
                Some \<lparr>a_status = err, a_out_tensors = out @ [batch_component st'],
                      a_unjoined = filter (\<lambda>i. \<not> prompt ctx ci i) (scheduled st)\<rparr>)
       | Some (None, st) \<Rightarrow>
           (case Wait ctx chk ci elems st of
              None \<Rightarrow> None
            | Some st' \<Rightarrow>
                Some \<lparr>a_status = status st', a_out_tensors = out @ [batch_component st'],
                      a_unjoined = []\<rparr>))"
    using al by (simp add: copy_component_def first Let_def n_def[symmetric] bs_def[symmetric] st0_def)
  show ?thesis
  proof (cases par)
    case False
    have rt: "run_tasks chk ci elems [0..<n] st0 =
       Some (st0\<lparr>status := fold (\<lambda>i s. Update s (slot_status chk ci elems bs i)) [0..<n] OK,
                 batch_component := t0\<lparr>flat := fold (slot_write chk ci elems bs) [0..<n] (flat t0)\<rparr>\<rparr>)"
      using run_tasks_fits[OF fits', of chk st0] by (simp add: sh0 sch0)
    have "copy_component ctx chk par elems ci out =
        Some \<lparr>a_status = fold (\<lambda>i s. Update s (slot_status chk ci elems bs i)) [0..<n] OK,
              a_out_tensors = out @ [t0\<lparr>flat := fold (slot_write chk ci elems bs) [0..<n] (flat t0)\<rparr>],
              a_unjoined = []\<rparr>"
      unfolding unfold using False
      by (simp add: copy_loop_seq_fits[OF fits'] rt Wait_nothing sch0)
    then show ?thesis
      by (auto simp: fold_Update_OK t0_def bs_def n_def)
  next
    case True
    let ?srt = "sort_key (runner ctx ci) [0..<n]"
    have fits'': "\<forall>i \<in> set ?srt. fits elems ci (shape first) i" using fits' by simp
    have rt: "run_tasks chk ci elems ?srt st0 =
       Some (st0\<lparr>status := fold (\<lambda>i s. Update s (slot_status chk ci elems bs i)) ?srt OK,
                 batch_component := t0\<lparr>flat := fold (slot_write chk ci elems bs) [0..<n] (flat t0)\<rparr>\<rparr>)"
      using run_tasks_fits[OF fits'', of chk st0]
      by (simp add: sh0 slot_write_sorted sch0)
    have w: "Wait ctx chk ci elems (st0\<lparr>scheduled := [0..<n]\<rparr>) =
              run_tasks chk ci elems ?srt st0"
      using sch0(1) by (simp add: Wait_def) (simp add: st0_def)
    have "copy_component ctx chk par elems ci out =
        Some \<lparr>a_status = fold (\<lambda>i s. Update s (slot_status chk ci elems bs i)) ?srt OK,
              a_out_tensors = out @ [t0\<lparr>flat := fold (slot_write chk ci elems bs) [0..<n] (flat t0)\<rparr>],
              a_unjoined = []\<rparr>"
      unfolding unfold using True
      by (simp add: copy_loop_par_fits[OF fits'] sch0 w rt)
    then show ?thesis
      by (auto simp: fold_Update_OK t0_def bs_def n_def)
  qed
qed


lemma copy_component_unfold:
  assumes first: "element_at elems 0 ci = Some first"
    and alloc: "allocator ctx (dtype first) (NumElements (length elems # shape first)) = Some buf"
  shows "copy_component ctx chk par elems ci out =
      (case copy_loop chk par ci elems (shape first) [0..<length elems]
              \<lparr>status = OK,
               batch_component = \<lparr>dtype = dtype first, shape = length elems # shape first,
                  flat = map buf [0..<NumElements (length elems # shape first)]\<rparr>,
               scheduled = []\<rparr> of
         None \<Rightarrow> None
       | Some (Some err, st) \<Rightarrow>
           (case run_tasks chk ci elems
                   (sort_key (runner ctx ci) (filter (prompt ctx ci) (scheduled st))) st of
              None \<Rightarrow> None
            | Some st' \<Rightarrow>
                Some \<lparr>a_status = err, a_out_tensors = out @ [batch_component st'],
                      a_unjoined = filter (\<lambda>i. \<not> prompt ctx ci i) (scheduled st)\<rparr>)
       | Some (None, st) \<Rightarrow>
           (case Wait ctx chk ci elems st of
              None \<Rightarrow> None
            | Some st' \<Rightarrow>
                Some \<lparr>a_status = status st', a_out_tensors = out @ [batch_component st'],
                      a_unjoined = []\<rparr>))"
  using alloc by (simp add: copy_component_def first Let_def Tensor_alloc_def)

lemma upt_split: "j < n \<Longrightarrow> [0..<n] = [0..<j] @ j # [Suc j..<n]"
  by (metis le_add2 le_add_same_cancel2 less_imp_add_positive upt_add_eq_append upt_conv_Cons
      less_or_eq_imp_le zero_le)

lemma copy_component_mismatch:
  assumes first: "element_at elems 0 ci = Some first"
    and alloc: "allocator ctx (dtype first) (NumElements (length elems # shape first)) = Some buf"
    and j: "j < length elems"
    and fits: "\<forall>i \<in> set [0..<j]. fits elems ci (shape first) i"
    and e: "element_at elems j ci = Some e" "shape e \<noteq> shape first"
  shows "\<exists>t. copy_component ctx chk par elems ci out =
           Some \<lparr>a_status = mismatch ci (shape first) j (shape e),
                 a_out_tensors = out @ [t],
                 a_unjoined = (if par then filter (\<lambda>i. \<not> prompt ctx ci i) [0..<j] else [])\<rparr>"
proof (cases par)
  case True
  have fits': "\<forall>i \<in> set (sort_key (runner ctx ci) (filter (prompt ctx ci) [0..<j])).
                 fits elems ci (shape first) i"
    using fits by simp
  show ?thesis
    unfolding copy_component_unfold[OF first alloc] upt_split[OF j] using True
    by (simp add: copy_loop_par_mismatch[OF fits e] run_tasks_fits[OF fits'])
next
  case False
  show ?thesis
    unfolding copy_component_unfold[OF first alloc] upt_split[OF j] using False
    by (simp add: copy_loop_seq_mismatch[OF fits e] run_tasks_fits[OF fits])
qed

lemma copy_component_absent:
  assumes first: "element_at elems 0 ci = Some first"
    and alloc: "allocator ctx (dtype first) (NumElements (length elems # shape first)) = Some buf"
    and j: "j < length elems"
    and fits: "\<forall>i \<in> set [0..<j]. fits elems ci (shape first) i"
    and e: "element_at elems j ci = None"
  shows "copy_component ctx chk par elems ci out = None"
  unfolding copy_component_unfold[OF first alloc] upt_split[OF j]
  by (simp add: copy_loop_absent[OF fits e])

lemma copy_component_oom:
  assumes first: "element_at elems 0 ci = Some first"
    and alloc: "allocator ctx (dtype first) (NumElements (length elems # shape first)) = None"
  shows "copy_component ctx chk par elems ci out =
     Some \<lparr>a_status = ResourceExhausted
                         [Str ''Failed to allocate memory for the batch of component '', Num ci],
           a_out_tensors = out @ [\<lparr>dtype = dtype first, shape = length elems # shape first, flat = []\<rparr>],
           a_unjoined = []\<rparr>"
  using alloc by (simp add: copy_component_def first Let_def Tensor_alloc_def)

lemma copy_component_no_first:
  "element_at elems 0 ci = None \<Longrightarrow> copy_component ctx chk par elems ci out = None"
  by (simp add: copy_component_def)

lemma first_unfit:
  assumes "\<not> (\<forall>i \<in> set [0..<n]. P i)"
  shows "\<exists>j < n. (\<forall>i \<in> set [0..<j]. P i) \<and> \<not> P j"
proof -
  from assms obtain k where k: "k < n" "\<not> P k" by auto
  define j where "j = (LEAST k. \<not> P k)"
  have "\<not> P j" unfolding j_def using k(2) by (rule LeastI)
  moreover have "j \<le> k" unfolding j_def using k(2) by (rule Least_le)
  moreover have "\<forall>i < j. P i" unfolding j_def using not_less_Least by blast
  ultimately have "j < n \<and> (\<forall>i \<in> set [0..<j]. P i) \<and> \<not> P j" using k(1) by simp
  then show ?thesis by blast
qed

lemma mismatch_not_OK [simp]: "mismatch ci fs j sh \<noteq> OK"
  by (simp add: mismatch_def InvalidArgument_def)

lemma copy_component_modes:
  "map_option delivered (copy_component ctx chk True elems ci out) =
   map_option delivered (copy_component ctx chk False elems ci out)"
proof (cases "element_at elems 0 ci")
  case None
  then show ?thesis by (simp add: copy_component_no_first)
next
  case (Some first)
  show ?thesis
  proof (cases "allocator ctx (dtype first) (NumElements (length elems # shape first))")
    case None
    then show ?thesis by (simp add: copy_component_oom[OF Some])
  next
    case (Some buf)
    note first = \<open>element_at elems 0 ci = Some first\<close>
    show ?thesis
    proof (cases "\<forall>i \<in> set [0..<length elems]. fits elems ci (shape first) i")
      case True
      from copy_component_fits[OF first Some True, of chk True out]
           copy_component_fits[OF first Some True, of chk False out]
      show ?thesis by (auto simp: delivered_def)
    next
      case False
      from first_unfit[OF False] obtain j where j: "j < length elems"
        "\<forall>i \<in> set [0..<j]. fits elems ci (shape first) i" "\<not> fits elems ci (shape first) j"
        by blast
      show ?thesis
      proof (cases "element_at elems j ci")
        case None
        then show ?thesis
          by (simp add: copy_component_absent[OF first Some j(1,2)])
      next
        case (Some e)
        with j(3) have ne: "shape e \<noteq> shape first" by (auto simp: fits_def)
        from copy_component_mismatch[OF first \<open>allocator ctx _ _ = Some buf\<close> j(1,2) Some ne, of chk True out]
             copy_component_mismatch[OF first \<open>allocator ctx _ _ = Some buf\<close> j(1,2) Some ne, of chk False out]
        show ?thesis by (auto simp: delivered_def)
      qed
    qed
  qed
qed

lemma copy_components_modes:
  "map_option delivered (copy_components ctx chk True elems cs out) =
   map_option delivered (copy_components ctx chk False elems cs out)"
proof (induction cs arbitrary: out)
  case Nil
  then show ?case by simp
next
  case (Cons c cs)
  show ?case
  proof (cases "copy_component ctx chk True elems c out")
    case None
    with copy_component_modes[of ctx chk elems c out]
    have "copy_component ctx chk False elems c out = None" by simp
    with None show ?thesis by simp
  next
    case (Some a)
    with copy_component_modes[of ctx chk elems c out]
    obtain a' where a': "copy_component ctx chk False elems c out = Some a'"
      "delivered a = delivered a'"
      by (cases "copy_component ctx chk False elems c out") auto
    show ?thesis
    proof (cases "a_status a = OK")
      case True
      with a'(2) have "a_status a' = OK" "a_out_tensors a' = a_out_tensors a"
        by (auto simp: delivered_def split: if_splits)
      with True Some a'(1) show ?thesis by (simp add: Cons.IH)
    next
      case False
      with a'(2) have "a_status a' \<noteq> OK"
        by (auto simp: delivered_def split: if_splits)
      with False Some a' show ?thesis by simp
    qed
  qed
qed


subsection \<open>The two modes of copying\<close>

lemma GetNextInternal_modes:
  "map_outcome (\<lambda>r. (emit r, r_input_impl r))
     (GetNextInternal (d\<lparr>parallel_copy := True\<rparr>) chk rsv ctx out impl) =
   map_outcome (\<lambda>r. (emit r, r_input_impl r))
     (GetNextInternal (d\<lparr>parallel_copy := False\<rparr>) chk rsv ctx out impl)"
proof (cases impl)
  case None
  then show ?thesis by (simp add: GetNextInternal_def emit_def)
next
  case s: (Some s)
  show ?thesis
  proof (cases "rsv (batch_size d mod 2 ^ 64)")
    case (Some e)
    with s show ?thesis by (simp add: GetNextInternal_def)
  next
    case rs: None
    show ?thesis
    proof (cases "pull (input d) ctx (nat (batch_size d)) 0 s []")
      case None
      with s rs show ?thesis by (simp add: GetNextInternal_def)
    next
      case (Some res)
      then obtain st elems eos impl' where
        p: "pull (input d) ctx (nat (batch_size d)) 0 s [] = Some (st, elems, eos, impl')"
        by (metis prod_cases4)
      let ?cs = "[0..<length (elems ! 0)]"
      show ?thesis
      proof (cases "copy_components ctx chk True elems ?cs out")
        case None
        with copy_components_modes[of ctx chk elems ?cs out]
        have "copy_components ctx chk False elems ?cs out = None" by simp
        with None s rs p show ?thesis
          by (simp add: GetNextInternal_def emit_def)
      next
        case (Some a)
        with copy_components_modes[of ctx chk elems ?cs out]
        obtain a' where a': "copy_components ctx chk False elems ?cs out = Some a'"
          "delivered a = delivered a'"
          by (cases "copy_components ctx chk False elems ?cs out") auto
        from a'(2) have "(a_status a = OK) = (a_status a' = OK)"
          "a_status a = OK \<Longrightarrow> a_out_tensors a = a_out_tensors a'"
          by (auto simp: delivered_def split: if_splits)
        with Some a'(1) s rs p show ?thesis
          by (simp add: GetNextInternal_def emit_def)
      qed
    qed
  qed
qed

lemma copy_task_scheduled:
  "copy_task chk ci elems i st = Some st' \<Longrightarrow> scheduled st' = scheduled st"
  by (auto simp: copy_task_def split: option.splits prod.splits)

lemma copy_loop_seq_scheduled:
  "copy_loop chk False ci elems fs is st = Some (res, st') \<Longrightarrow> scheduled st' = scheduled st"
proof (induction "is" arbitrary: st)
  case Nil
  then show ?case by simp
next
  case (Cons i "is")
  then show ?case
    by (auto split: option.splits if_splits dest: copy_task_scheduled)
qed

lemma copy_component_seq_joined:
  "copy_component ctx chk False elems ci out = Some a \<Longrightarrow> a_unjoined a = []"
  by (auto simp: copy_component_def Let_def
      split: option.splits prod.splits if_splits dest!: copy_loop_seq_scheduled)

lemma copy_components_seq_joined:
  "copy_components ctx chk False elems cs out = Some a \<Longrightarrow> a_unjoined a = []"
proof (induction cs arbitrary: out)
  case Nil
  then show ?case by auto
next
  case (Cons c cs)
  then show ?case
    by (auto split: option.splits if_splits dest: copy_component_seq_joined)
qed

lemma GetNextInternal_seq_joined:
  "GetNextInternal d chk rsv ctx out impl = Returns r \<Longrightarrow> \<not> parallel_copy d \<Longrightarrow>
   r_unjoined r = []"
proof -
  assume r: "GetNextInternal d chk rsv ctx out impl = Returns r" and np: "\<not> parallel_copy d"
  have j: "\<And>elems cs a. copy_components ctx chk (parallel_copy d) elems cs out = Some a \<Longrightarrow>
             a_unjoined a = []"
    using np copy_components_seq_joined by metis
  from r show ?thesis
    by (auto simp: GetNextInternal_def split: option.splits if_splits) (erule j)+
qed

lemma GetNext_calls_length [simp]:
  "length (GetNext_calls d chk rsv ctxs impl) = length ctxs"
  by (induction ctxs arbitrary: impl) (auto split: outcome.splits)

lemma undefined_all2:
  "length qs = length ctxs \<Longrightarrow>
   list_all2 (\<lambda>p q. p = Undefined \<or> p = q) (map (\<lambda>ctx. Undefined) ctxs) qs"
  by (simp add: list_all2_conv_all_nth)

text \<open>Call by call, the parallel mode gives its caller what the sequential mode gives
  (the same batch, end of sequence, failure or exception), except where the parallel
  run is undefined.\<close>

lemma GetNext_calls_modes:
  "list_all2 (\<lambda>p q. p = Undefined \<or> p = q)
     (map (map_outcome emit) (GetNext_calls (d\<lparr>parallel_copy := True\<rparr>) chk rsv ctxs impl))
     (map (map_outcome emit) (GetNext_calls (d\<lparr>parallel_copy := False\<rparr>) chk rsv ctxs impl))"
proof (induction ctxs arbitrary: impl)
  case Nil
  then show ?case by simp
next
  case (Cons ctx ctxs)
  let ?P = "GetNextInternal (d\<lparr>parallel_copy := True\<rparr>) chk rsv ctx [] impl"
  let ?S = "GetNextInternal (d\<lparr>parallel_copy := False\<rparr>) chk rsv ctx [] impl"
  note m = GetNextInternal_modes[of d chk rsv ctx "[]" impl]
  show ?case
  proof (cases ?P)
    case Undefined
    with m have "?S = Undefined" by (cases ?S) auto
    with Undefined show ?thesis by (simp add: undefined_all2 comp_def)
  next
    case (Throws e)
    with m have "?S = Throws e" by (cases ?S) auto
    with Throws show ?thesis by (simp add: Cons.IH)
  next
    case (Returns r)
    with m obtain r' where r': "?S = Returns r'" "emit r = emit r'"
      "r_input_impl r = r_input_impl r'"
      by (cases ?S) auto
    from GetNextInternal_seq_joined[OF r'(1)] have j: "r_unjoined r' = []" by simp
    show ?thesis
    proof (cases "r_unjoined r = []")
      case True
      with Returns r' j show ?thesis by (simp add: Cons.IH)
    next
      case False
      with Returns r' j show ?thesis by (simp add: undefined_all2 comp_def)
    qed
  qed
qed

lemma modes_same_when_defined:
  assumes "Undefined \<notin> set (GetNext_calls (d\<lparr>parallel_copy := True\<rparr>) chk rsv ctxs impl)"
  shows "map (map_outcome emit) (GetNext_calls (d\<lparr>parallel_copy := True\<rparr>) chk rsv ctxs impl) =
         map (map_outcome emit) (GetNext_calls (d\<lparr>parallel_copy := False\<rparr>) chk rsv ctxs impl)"
proof -
  let ?P = "map (map_outcome emit) (GetNext_calls (d\<lparr>parallel_copy := True\<rparr>) chk rsv ctxs impl)"
  let ?S = "map (map_outcome emit) (GetNext_calls (d\<lparr>parallel_copy := False\<rparr>) chk rsv ctxs impl)"
  have u: "\<forall>p \<in> set ?P. p \<noteq> Undefined"
  proof
    fix p assume "p \<in> set ?P"
    then obtain q where q: "q \<in> set (GetNext_calls (d\<lparr>parallel_copy := True\<rparr>) chk rsv ctxs impl)"
      "p = map_outcome emit q" by auto
    with assms have "q \<noteq> Undefined" by auto
    with q(2) show "p \<noteq> Undefined" by (cases q) auto
  qed
  have "list_all2 (\<lambda>p q. p = Undefined \<or> p = q) ?P ?S" by (rule GetNext_calls_modes)
  then have "list_all2 (=) ?P ?S"
    using u by (auto simp: list_all2_conv_all_nth)
  then show ?thesis by (simp add: list_all2_eq)
qed

text \<open>
  C8 fails on the code. Five elements of shapes (2), (2), (3), (3), (3) in batches of
  three. Copying sequentially, the first call fails on the third element, the second
  returns the batch of the last two elements and the third the end of the sequence. With
  \<^verbatim>\<open>parallel_copy\<close> true and a runner that has completed no closure when the loop is
  left, the first call returns the same failure with the closures for indices 0 and 1
  left with the runner (\<^verbatim>\<open>counter.Wait()\<close> is not reached): they run on locals that are
  gone, and the later calls, which give a batch and the end of the sequence in the
  sequential mode, are undefined.
\<close>

theorem parallel_copy_diverges_after_mismatch:
  "map (map_outcome emit)
     (GetNext_calls (Dataset_ctor 3 False False (vector_input elements5)) copy_ok reserve_ok
        [ctx_ok, ctx_ok, ctx_ok] (Some 0)) =
   [Returns Failure,
    Returns (Batch [\<lparr>dtype = 1, shape = [2, 3], flat = [8, 9, 10, 11, 12, 13]\<rparr>]),
    Returns EndOfSequence] \<and>
   map (map_outcome emit)
     (GetNext_calls (Dataset_ctor 3 False True (vector_input elements5)) copy_ok reserve_ok
        [ctx_ok, ctx_ok, ctx_ok] (Some 0)) =
   [Returns Failure, Undefined, Undefined]"
  by code_simp

text \<open>With a runner that runs each closure in the calling thread no closure is left at the
  return, and the parallel mode gives what the sequential mode gives.\<close>

lemma parallel_copy_inline_runner:
  "map (map_outcome emit)
     (GetNext_calls (Dataset_ctor 3 False True (vector_input elements5)) copy_ok reserve_ok
        [ctx_inline, ctx_inline, ctx_inline] (Some 0)) =
   [Returns Failure,
    Returns (Batch [\<lparr>dtype = 1, shape = [2, 3], flat = [8, 9, 10, 11, 12, 13]\<rparr>]),
    Returns EndOfSequence]"
  by code_simp

text \<open>Seven elements in batches of three, the closures completing in reverse order: the
  batches are those of the sequential mode.\<close>

lemma parallel_copy_reverse_order:
  "map (map_outcome emit)
     (GetNext_calls (Dataset_ctor 3 False True (vector_input elements7)) copy_ok reserve_ok
        [ctx_rev, ctx_rev, ctx_rev, ctx_rev] (Some 0)) =
   map (map_outcome emit)
     (GetNext_calls (Dataset_ctor 3 False False (vector_input elements7)) copy_ok reserve_ok
        [ctx_rev, ctx_rev, ctx_rev, ctx_rev] (Some 0))"
  by code_simp

subsection \<open>A batch that assembles\<close>

lemma write_slice_append:
  assumes "length e = sz" "sz \<le> length B"
  shows "write_slice (A @ B) (length A) sz e = A @ e @ drop sz B"
proof (rule nth_equalityI)
  show "length (write_slice (A @ B) (length A) sz e) = length (A @ e @ drop sz B)"
    using assms by simp
next
  fix p assume "p < length (write_slice (A @ B) (length A) sz e)"
  then have p: "p < length A + length B" by simp
  consider "p < length A" | "length A \<le> p" "p < length A + sz" | "length A + sz \<le> p"
    by linarith
  then show "write_slice (A @ B) (length A) sz e ! p = (A @ e @ drop sz B) ! p"
  proof cases
    case 1
    then show ?thesis using p by (simp add: write_slice_nth nth_append)
  next
    case 2
    then have "p - length A < sz" by linarith
    with 2 show ?thesis using p assms by (simp add: write_slice_nth nth_append)
  next
    case 3
    then have a: "\<not> p < length A" "\<not> p < length A + sz" "\<not> p - length A < sz"
      by linarith+
    have "(drop sz B) ! (p - length A - sz) = B ! (sz + (p - length A - sz))"
      using assms(2) by (rule nth_drop)
    also have "sz + (p - length A - sz) = p - length A" using 3 by linarith
    finally have "(drop sz B) ! (p - length A - sz) = B ! (p - length A)" .
    then show ?thesis using p assms a
      by (simp add: write_slice_nth nth_append)
  qed
qed

lemma concat_uniform_length:
  "\<forall>x \<in> set xs. length x = sz \<Longrightarrow> length (concat xs) = length xs * sz"
  by (induction xs) auto

lemma fold_write_concat:
  assumes "\<forall>i < n. length (dat i) = sz" "length d0 = n * sz" "k \<le> n"
  shows "fold (\<lambda>i d. write_slice d (i * sz) sz (dat i)) [0..<k] d0 =
           concat (map dat [0..<k]) @ drop (k * sz) d0"
  using assms(3)
proof (induction k)
  case 0
  then show ?case by simp
next
  case (Suc k)
  then have k: "k < n" by simp
  let ?A = "concat (map dat [0..<k])"
  let ?B = "drop (k * sz) d0"
  have lA: "length ?A = k * sz"
    using assms(1) k by (subst concat_uniform_length[where sz = sz]) auto
  have "(n - k) * sz = n * sz - k * sz" by (simp add: diff_mult_distrib)
  moreover have "sz \<le> (n - k) * sz" using k by (cases "n - k") auto
  ultimately have lB: "sz \<le> length ?B" using assms(2) by simp
  have ld: "length (dat k) = sz" using assms(1) k by simp
  have "fold (\<lambda>i d. write_slice d (i * sz) sz (dat i)) [0..<Suc k] d0 =
        write_slice (?A @ ?B) (k * sz) sz (dat k)"
    using Suc by simp
  also have "\<dots> = ?A @ dat k @ drop sz ?B"
    using write_slice_append[OF ld lB, of ?A] by (simp add: lA)
  also have "\<dots> = concat (map dat [0..<Suc k]) @ drop (Suc k * sz) d0"
    by (simp add: add.commute)
  finally show ?case .
qed


lemma map_index: "map (\<lambda>i. f (xs ! i)) [0..<length xs] = map f xs"
proof -
  have "map f (map ((!) xs) [0..<length xs]) = map f xs" by (simp only: map_nth)
  then show ?thesis by (simp add: comp_def)
qed

lemma copy_component_stacked:
  assumes ne: "elems \<noteq> []"
    and alloc: "allocator ctx (dtype (hd elems ! c))
                  (NumElements (length elems # shape (hd elems ! c))) \<noteq> None"
    and slot: "\<forall>i < length elems.
                 c < length (elems ! i) \<and> shape (elems ! i ! c) = shape (hd elems ! c) \<and>
                 well_formed (elems ! i ! c) \<and>
                 chk (elems ! i ! c) (length elems # shape (hd elems ! c)) i = OK"
  shows "copy_component ctx chk par elems c out =
           Some \<lparr>a_status = OK, a_out_tensors = out @ [stacked_slot elems c], a_unjoined = []\<rparr>"
proof -
  define n where "n = length elems"
  have hd0: "hd elems = elems ! 0" using ne by (simp add: hd_conv_nth)
  define first where "first = elems ! 0 ! c"
  define sz where "sz = NumElements (shape first)"
  have n0: "0 < n" using ne by (simp add: n_def)
  have sl: "c < length (elems ! i)" "shape (elems ! i ! c) = shape first"
    "length (flat (elems ! i ! c)) = sz"
    "chk (elems ! i ! c) (length elems # shape first) i = OK" if "i < n" for i
    using slot that by (simp_all add: n_def hd0 first_def sz_def well_formed_def)
  have at: "element_at elems i c = Some (elems ! i ! c)" if "i < n" for i
    using sl(1)[OF that] that by (simp add: element_at_def n_def)
  have first: "element_at elems 0 c = Some first" using at[OF n0] by (simp add: first_def)
  have fits: "\<forall>i \<in> set [0..<length elems]. fits elems c (shape first) i"
    using at sl(2) by (auto simp: fits_def n_def)
  from alloc obtain buf where
    buf: "allocator ctx (dtype first) (NumElements (length elems # shape first)) = Some buf"
    by (auto simp: hd0 first_def)
  have ok: "\<forall>i < length elems. slot_status chk c elems (length elems # shape first) i = OK"
    using sl(4) by (simp add: slot_status_def n_def)
  have sw: "fold (slot_write chk c elems (length elems # shape first)) [0..<n] d0 =
            fold (\<lambda>i d. write_slice d (i * sz) sz (flat (elems ! i ! c))) [0..<n] d0" for d0
  proof (rule fold_cong)
    fix i assume "i \<in> set [0..<n]"
    then have "i < n" by simp
    from sl(4)[OF this]
    show "slot_write chk c elems (length elems # shape first) i =
          (\<lambda>d. write_slice d (i * sz) sz (flat (elems ! i ! c)))"
      by (simp add: slot_write_def fun_eq_iff sz_def)
  qed simp_all
  have ne': "NumElements (length elems # shape first) = n * sz"
    by (simp add: NumElements_def sz_def n_def)
  have "fold (\<lambda>i d. write_slice d (i * sz) sz (flat (elems ! i ! c))) [0..<n]
          (map buf [0..<n * sz]) =
        concat (map (\<lambda>i. flat (elems ! i ! c)) [0..<n]) @ drop (n * sz) (map buf [0..<n * sz])"
  proof (rule fold_write_concat[where n = n])
    show "\<forall>i<n. length (flat (elems ! i ! c)) = sz"
      using sl(3) by simp
  qed simp_all
  also have "\<dots> = concat (map (\<lambda>e. flat (e ! c)) elems)"
    using map_index[of "\<lambda>e. flat (e ! c)" elems] by (simp add: n_def)
  finally have content:
    "fold (slot_write chk c elems (length elems # shape first)) [0..<length elems]
          (map buf [0..<NumElements (length elems # shape first)]) =
     concat (map (\<lambda>e. flat (e ! c)) elems)"
    by (simp add: sw[unfolded n_def] ne' n_def)
  from copy_component_fits[OF first buf fits, of chk par out] ok content
  show ?thesis
    by (auto simp: stacked_slot_def hd0 first_def)
qed

lemma copy_components_stacked:
  assumes ne: "elems \<noteq> []"
  shows "\<forall>c \<in> set cs.
           allocator ctx (dtype (hd elems ! c))
             (NumElements (length elems # shape (hd elems ! c))) \<noteq> None \<and>
           (\<forall>i < length elems.
              c < length (elems ! i) \<and> shape (elems ! i ! c) = shape (hd elems ! c) \<and>
              well_formed (elems ! i ! c) \<and>
              chk (elems ! i ! c) (length elems # shape (hd elems ! c)) i = OK) \<Longrightarrow>
         copy_components ctx chk par elems cs out =
           Some \<lparr>a_status = OK, a_out_tensors = out @ map (stacked_slot elems) cs,
                 a_unjoined = []\<rparr>"
proof (induction cs arbitrary: out)
  case Nil
  then show ?case by simp
next
  case (Cons c cs)
  from Cons.prems have
    a: "allocator ctx (dtype (hd elems ! c))
             (NumElements (length elems # shape (hd elems ! c))) \<noteq> None" and
    s: "\<forall>i < length elems.
              c < length (elems ! i) \<and> shape (elems ! i ! c) = shape (hd elems ! c) \<and>
              well_formed (elems ! i ! c) \<and>
              chk (elems ! i ! c) (length elems # shape (hd elems ! c)) i = OK"
    by simp_all
  from Cons.prems have cs: "\<forall>c \<in> set cs.
           allocator ctx (dtype (hd elems ! c))
             (NumElements (length elems # shape (hd elems ! c))) \<noteq> None \<and>
           (\<forall>i < length elems.
              c < length (elems ! i) \<and> shape (elems ! i ! c) = shape (hd elems ! c) \<and>
              well_formed (elems ! i ! c) \<and>
              chk (elems ! i ! c) (length elems # shape (hd elems ! c)) i = OK)"
    by simp
  show ?case
    by (simp add: copy_component_stacked[where chk = chk and c = c, OF ne a s] Cons.IH[OF cs])
qed

lemma assembles_stacked:
  assumes "elems \<noteq> []" and "assembles ctx chk elems"
  shows "copy_components ctx chk par elems [0..<length (elems ! 0)] out =
           Some \<lparr>a_status = OK, a_out_tensors = out @ stacked elems, a_unjoined = []\<rparr>"
proof -
  have hd0: "hd elems = elems ! 0" using assms(1) by (simp add: hd_conv_nth)
  have "\<forall>c \<in> set [0..<length (hd elems)].
           allocator ctx (dtype (hd elems ! c))
             (NumElements (length elems # shape (hd elems ! c))) \<noteq> None \<and>
           (\<forall>i < length elems.
              c < length (elems ! i) \<and> shape (elems ! i ! c) = shape (hd elems ! c) \<and>
              well_formed (elems ! i ! c) \<and>
              chk (elems ! i ! c) (length elems # shape (hd elems ! c)) i = OK)"
    using assms(2) by (auto simp: assembles_def Option.is_none_def)
  from copy_components_stacked[where chk = chk and ctx = ctx and cs = "[0..<length (hd elems)]",
         OF assms(1) this, of par out]
  show ?thesis
    by (simp add: stacked_def hd0)
qed


section \<open>The iterator over a sequence\<close>

lemma pull_defined:
  "yields inp ctx s xs \<Longrightarrow> 0 \<le> i \<Longrightarrow>
   i + int k \<le> 2 ^ 31 - 1 \<or> i + int (length xs) < 2 ^ 31 - 1 \<Longrightarrow>
   pull inp ctx k i s acc \<noteq> None"
proof (induction k arbitrary: i s xs acc)
  case 0
  then show ?case by simp
next
  case (Suc k)
  from Suc.prems(2,3) have ne: "i \<noteq> 2 ^ 31 - 1" and i1: "0 \<le> i + 1" by auto
  show ?case
  proof (cases xs)
    case Nil
    with Suc.prems(1) ne show ?thesis by (auto split: prod.splits)
  next
    case (Cons x xs')
    with Suc.prems(1) obtain s' where
      g: "input_GetNext inp ctx s = ((OK, x, False), s')" and y: "yields inp ctx s' xs'"
      by (auto split: prod.splits)
    from Suc.prems(3) Cons
    have "i + 1 + int k \<le> 2 ^ 31 - 1 \<or> i + 1 + int (length xs') < 2 ^ 31 - 1" by auto
    from Suc.IH[OF y i1 this] g ne show ?thesis by simp
  qed
qed

lemma pull_yields:
  "yields inp ctx s xs \<Longrightarrow> pull inp ctx k i s acc = Some res \<Longrightarrow>
   \<exists>impl. res = (OK, acc @ take k xs, length xs < k, impl) \<and>
     (if length xs < k then impl = None
      else (\<exists>s'. impl = Some s' \<and> yields inp ctx s' (drop k xs)))"
proof (induction k arbitrary: i s xs acc)
  case 0
  then show ?case by auto
next
  case (Suc k)
  show ?case
  proof (cases xs)
    case Nil
    with Suc.prems show ?thesis by (auto split: prod.splits if_splits)
  next
    case (Cons x xs')
    with Suc.prems(1) obtain s' where
      g: "input_GetNext inp ctx s = ((OK, x, False), s')" and y: "yields inp ctx s' xs'"
      by (auto split: prod.splits)
    from Suc.prems(2) g have "pull inp ctx k (i + 1) s' (acc @ [x]) = Some res"
      by (simp split: if_splits)
    from Suc.IH[OF y this] obtain impl where
      "res = (OK, (acc @ [x]) @ take k xs', length xs' < k, impl)"
      "if length xs' < k then impl = None
       else (\<exists>s''. impl = Some s'' \<and> yields inp ctx s'' (drop k xs'))"
      by blast
    then show ?thesis
      by (auto simp: Cons)
  qed
qed

lemma take_replicate_Cons: "k \<le> m \<Longrightarrow> take k (x # replicate m x) = replicate k x"
proof -
  assume "k \<le> m"
  then have "min k (Suc m) = k" by simp
  then have "take k (replicate (Suc m) x) = replicate k x" by (simp only: take_replicate)
  then show ?thesis by simp
qed

text \<open>One call on an input that yields \<open>xs\<close>, when the batch it pulls assembles.\<close>

lemma call_yields:
  fixes d :: "'s Dataset"
  defines "b \<equiv> nat (batch_size d)"
  assumes y: "yields (input d) ctx s xs"
    and bs: "0 < batch_size d" "batch_size d < 2 ^ 63"
    and cnt: "batch_size d < 2 ^ 31 \<or> int (length xs) < 2 ^ 31 - 1"
    and rs: "rsv (batch_size d) = None"
    and conf: "\<not> (xs = [] \<or> (length xs < b \<and> drop_remainder d)) \<Longrightarrow>
               assembles ctx chk (take b xs)"
  shows "\<exists>r. GetNextInternal d chk rsv ctx [] (Some s) = Returns r \<and> r_unjoined r = [] \<and>
     (if xs = [] \<or> (length xs < b \<and> drop_remainder d)
      then emit r = EndOfSequence \<and> r_input_impl r = None
      else if length xs < b then emit r = Batch (stacked xs) \<and> r_input_impl r = None
      else emit r = Batch (stacked (take b xs)) \<and>
           (\<exists>s'. r_input_impl r = Some s' \<and> yields (input d) ctx s' (drop b xs)))"
proof -
  have b0: "0 < b" "int b = batch_size d" using bs by (simp_all add: b_def)
  have m64: "batch_size d mod 2 ^ 64 = batch_size d" using bs by simp
  have rs': "rsv (batch_size d mod 2 ^ 64) = None" using rs m64 by simp
  have "pull (input d) ctx b 0 s [] \<noteq> None"
    by (rule pull_defined[OF y]) (use b0 cnt in auto)
  then obtain res where res: "pull (input d) ctx b 0 s [] = Some res" by auto
  from pull_yields[OF y res] obtain impl where
    p: "pull (input d) ctx b 0 s [] = Some (OK, take b xs, length xs < b, impl)" and
    i: "if length xs < b then impl = None
        else (\<exists>s'. impl = Some s' \<and> yields (input d) ctx s' (drop b xs))"
    using res by auto
  have lt: "length (take b xs) \<le> b" by simp
  have cmp: "(int (length (take b xs)) mod 2 ^ 64 < batch_size d mod 2 ^ 64) = (length xs < b)"
  proof -
    have "int (length (take b xs)) \<le> batch_size d" using lt b0 by linarith
    moreover have "(2::int) ^ 63 < 2 ^ 64" by simp
    ultimately have "int (length (take b xs)) < 2 ^ 64" using bs by linarith
    then have "int (length (take b xs)) mod 2 ^ 64 = int (length (take b xs))" by simp
    with m64 show ?thesis using b0 by auto
  qed
  show ?thesis
  proof (cases "xs = []")
    case True
    with p i b0 rs' show ?thesis
      by (simp add: GetNextInternal_def b_def[symmetric] emit_def)
  next
    case False
    with b0 have ne: "take b xs \<noteq> []" by simp
    show ?thesis
    proof (cases "length xs < b \<and> drop_remainder d")
      case True
      with p i ne False cmp rs' show ?thesis
        by (simp add: GetNextInternal_def b_def[symmetric] emit_def)
    next
      case nd: False
      with False conf have conf': "assembles ctx chk (take b xs)" by blast
      have asm: "copy_components ctx chk (parallel_copy d) (take b xs)
                   [0..<length (take b xs ! 0)] [] =
                 Some \<lparr>a_status = OK, a_out_tensors = stacked (take b xs), a_unjoined = []\<rparr>"
        using assembles_stacked[OF ne conf', of "parallel_copy d" "[]"] by simp
      show ?thesis
      proof (cases "length xs < b")
        case True
        with p i ne False cmp asm nd rs' show ?thesis
          by (simp add: GetNextInternal_def b_def[symmetric] emit_def)
      next
        case nl: False
        with p i ne False cmp asm rs' show ?thesis
          by (auto simp: GetNextInternal_def b_def[symmetric] emit_def)
      qed
    qed
  qed
qed

lemma GetNext_calls_exhausted_emit:
  "map (map_outcome emit) (GetNext_calls d chk rsv ctxs None) =
     replicate (length ctxs) (Returns EndOfSequence)"
  by (induction ctxs) (simp_all add: GetNextInternal_exhausted emit_def)

lemma calls_yields:
  fixes d :: "'s Dataset"
  defines "b \<equiv> nat (batch_size d)"
  assumes bs: "0 < batch_size d" "batch_size d < 2 ^ 63"
    and rs: "rsv (batch_size d) = None"
  shows "yields (input d) ctx s xs \<Longrightarrow>
     batch_size d < 2 ^ 31 \<or> int (length xs) < 2 ^ 31 - 1 \<Longrightarrow>
     \<forall>es \<in> set (take m (spec_batches b (drop_remainder d) fuel xs)). assembles ctx chk es \<Longrightarrow>
     length xs < fuel \<Longrightarrow>
     map (map_outcome emit) (GetNext_calls d chk rsv (replicate m ctx) (Some s)) =
     take m (map (\<lambda>es. Returns (Batch (stacked es))) (spec_batches b (drop_remainder d) fuel xs)
             @ replicate m (Returns EndOfSequence))"
proof (induction m arbitrary: s xs fuel)
  case 0
  then show ?case by simp
next
  case (Suc m)
  from Suc.prems(4) obtain f where f: "fuel = Suc f" by (cases fuel) auto
  have b0: "0 < b" using bs by (simp add: b_def)
  have conf: "assembles ctx chk (take b xs)"
    if n: "\<not> (xs = [] \<or> (length xs < b \<and> drop_remainder d))"
  proof (cases "length xs < b")
    case True
    with n have "spec_batches b (drop_remainder d) fuel xs = [xs]" by (simp add: f)
    with Suc.prems(3) True show ?thesis by simp
  next
    case False
    with n have "spec_batches b (drop_remainder d) fuel xs =
        take b xs # spec_batches b (drop_remainder d) f (drop b xs)" by (simp add: f)
    with Suc.prems(3) show ?thesis by simp
  qed
  have "\<exists>r. GetNextInternal d chk rsv ctx [] (Some s) = Returns r \<and> r_unjoined r = [] \<and>
     (if xs = [] \<or> (length xs < b \<and> drop_remainder d)
      then emit r = EndOfSequence \<and> r_input_impl r = None
      else if length xs < b then emit r = Batch (stacked xs) \<and> r_input_impl r = None
      else emit r = Batch (stacked (take b xs)) \<and>
           (\<exists>s'. r_input_impl r = Some s' \<and> yields (input d) ctx s' (drop b xs)))"
    unfolding b_def
    apply (rule call_yields)
         apply (rule Suc.prems(1))
        apply (rule bs(1))
       apply (rule bs(2))
      apply (rule Suc.prems(2))
     apply (rule rs)
    apply (rule conf[unfolded b_def], assumption)
    done
  then obtain r where
    r: "GetNextInternal d chk rsv ctx [] (Some s) = Returns r" "r_unjoined r = []" and
    c: "if xs = [] \<or> (length xs < b \<and> drop_remainder d)
      then emit r = EndOfSequence \<and> r_input_impl r = None
      else if length xs < b then emit r = Batch (stacked xs) \<and> r_input_impl r = None
      else emit r = Batch (stacked (take b xs)) \<and>
           (\<exists>s'. r_input_impl r = Some s' \<and> yields (input d) ctx s' (drop b xs))"
    by blast
  consider (eos) "xs = [] \<or> (length xs < b \<and> drop_remainder d)"
    | (part) "xs \<noteq> []" "length xs < b" "\<not> drop_remainder d"
    | (full) "xs \<noteq> []" "\<not> length xs < b"
    by blast
  then show ?case
  proof cases
    case eos
    with c have e: "emit r = EndOfSequence" "r_input_impl r = None" by simp_all
    from eos have sb: "spec_batches b (drop_remainder d) fuel xs = []"
      by (auto simp: f)
    show ?thesis
      using GetNext_calls_exhausted_emit[of d chk rsv "replicate m ctx"]
      by (simp add: r e sb take_replicate_Cons)
  next
    case part
    with c have e: "emit r = Batch (stacked xs)" "r_input_impl r = None" by simp_all
    from part have sb: "spec_batches b (drop_remainder d) fuel xs = [xs]"
      by (simp add: f)
    show ?thesis
      using GetNext_calls_exhausted_emit[of d chk rsv "replicate m ctx"]
      by (simp add: r e sb take_replicate_Cons)
  next
    case full
    with c obtain s' where e: "emit r = Batch (stacked (take b xs))" "r_input_impl r = Some s'"
      and y': "yields (input d) ctx s' (drop b xs)" by auto
    from full have sb: "spec_batches b (drop_remainder d) fuel xs =
        take b xs # spec_batches b (drop_remainder d) f (drop b xs)"
      by (simp add: f)
    have conf': "\<forall>es \<in> set (take m (spec_batches b (drop_remainder d) f (drop b xs))).
        assembles ctx chk es"
      using Suc.prems(3) by (simp add: sb)
    have cnt': "batch_size d < 2 ^ 31 \<or> int (length (drop b xs)) < 2 ^ 31 - 1"
      using Suc.prems(2) by auto
    have l: "length (drop b xs) < f" using Suc.prems(4) full b0 f by simp
    from Suc.IH[OF y' cnt' conf' l] show ?thesis
      by (simp add: r e sb take_replicate_Cons)
  qed
qed

lemma spec_batches_length:
  "0 < b \<Longrightarrow> length xs < fuel \<Longrightarrow>
   length (spec_batches b dr fuel xs) =
     length xs div b + (if \<not> dr \<and> length xs mod b \<noteq> 0 then 1 else 0)"
proof (induction fuel arbitrary: xs)
  case 0
  then show ?case by simp
next
  case (Suc fuel)
  show ?case
  proof (cases "length xs < b")
    case True
    then show ?thesis by (cases "xs = []") auto
  next
    case False
    then have ge: "b \<le> length xs" by simp
    with Suc.prems have ne: "xs \<noteq> []" by auto
    have l: "length (drop b xs) < fuel" using Suc.prems ge by simp
    have d: "length xs div b = Suc ((length xs - b) div b)"
      using ge Suc.prems(1) by (simp add: le_div_geq)
    have m: "length xs mod b = (length xs - b) mod b"
      using ge by (simp add: le_mod_geq)
    show ?thesis
      using Suc.IH[OF Suc.prems(1) l, of ] False ne by (simp add: d m)
  qed
qed

lemma spec_batches_nth:
  "0 < b \<Longrightarrow> length xs < fuel \<Longrightarrow> k < length xs div b \<Longrightarrow>
   spec_batches b dr fuel xs ! k = take b (drop (k * b) xs)"
proof (induction fuel arbitrary: xs k)
  case 0
  then show ?case by simp
next
  case (Suc fuel)
  from Suc.prems(3) have ge: "b \<le> length xs"
    by (metis div_less less_nat_zero_code not_le_imp_less)
  with Suc.prems have ne: "xs \<noteq> []" by auto
  have l: "length (drop b xs) < fuel" using Suc.prems ge by simp
  have d: "length xs div b = Suc ((length xs - b) div b)"
    using ge Suc.prems(1) by (simp add: le_div_geq)
  show ?case
  proof (cases k)
    case 0
    with ge ne show ?thesis by simp
  next
    case (Suc k')
    with Suc.prems(3) d have "k' < length (drop b xs) div b" by simp
    from Suc.IH[OF Suc.prems(1) l this] ge ne Suc show ?thesis
      by (simp add: add.commute)
  qed
qed

lemma spec_batches_last:
  "0 < b \<Longrightarrow> length xs < fuel \<Longrightarrow> \<not> dr \<Longrightarrow> length xs mod b \<noteq> 0 \<Longrightarrow>
   spec_batches b dr fuel xs ! (length xs div b) = drop (length xs div b * b) xs"
proof (induction fuel arbitrary: xs)
  case 0
  then show ?case by simp
next
  case (Suc fuel)
  show ?case
  proof (cases "length xs < b")
    case True
    with Suc.prems show ?thesis by (cases "xs = []") auto
  next
    case False
    then have ge: "b \<le> length xs" by simp
    with Suc.prems have ne: "xs \<noteq> []" by auto
    have l: "length (drop b xs) < fuel" using Suc.prems ge by simp
    have d: "length xs div b = Suc ((length xs - b) div b)"
      using ge Suc.prems(1) by (simp add: le_div_geq)
    have m: "length (drop b xs) mod b \<noteq> 0"
      using ge Suc.prems(4) by (simp add: le_mod_geq)
    from Suc.IH[OF Suc.prems(1) l Suc.prems(3) m] False ne show ?thesis
      by (simp add: d add.commute)
  qed
qed


section \<open>Calls that fail\<close>

lemma pull_absent:
  "pull inp ctx k i s acc = Some (st, elems, eos, None) \<Longrightarrow> st = OK \<and> eos"
  by (induction k arbitrary: i s acc) (auto split: prod.splits if_splits)

lemma copy_component_appends:
  "copy_component ctx chk par elems c out = Some a \<Longrightarrow> \<exists>t. a_out_tensors a = out @ [t]"
  by (auto simp: copy_component_def Let_def split: option.splits prod.splits if_splits)

lemma copy_components_appends:
  "copy_components ctx chk par elems cs out = Some a \<Longrightarrow>
   \<exists>extra. a_out_tensors a = out @ extra \<and> length extra \<le> length cs \<and>
           (a_status a \<noteq> OK \<longrightarrow> extra \<noteq> [])"
proof (induction cs arbitrary: out)
  case Nil
  then show ?case by auto
next
  case (Cons c cs)
  from Cons.prems obtain a1 where a1: "copy_component ctx chk par elems c out = Some a1"
    by (auto split: option.splits)
  from copy_component_appends[OF a1] obtain t where t: "a_out_tensors a1 = out @ [t]" by blast
  show ?case
  proof (cases "a_status a1 = OK")
    case False
    with Cons.prems a1 have "a = a1" by simp
    with t False show ?thesis by auto
  next
    case True
    with Cons.prems a1 have "copy_components ctx chk par elems cs (a_out_tensors a1) = Some a"
      by simp
    from Cons.IH[OF this] obtain extra where
      "a_out_tensors a = a_out_tensors a1 @ extra" "length extra \<le> length cs"
      by blast
    with t show ?thesis by auto
  qed
qed

lemma error_return:
  assumes r: "GetNextInternal d chk rsv ctx out impl = Returns r" and f: "r_status r \<noteq> OK"
  shows "\<exists>s st elems eos impl'.
           impl = Some s \<and>
           pull (input d) ctx (nat (batch_size d)) 0 s [] = Some (st, elems, eos, impl') \<and>
           r_input_impl r = impl' \<and> r_end_of_sequence r = eos \<and>
           (r_input_impl r = None \<longrightarrow> st = OK \<and> eos) \<and>
           (st \<noteq> OK \<longrightarrow> r_status r = st \<and> r_out_tensors r = out \<and> r_input_impl r \<noteq> None) \<and>
           (st = OK \<longrightarrow> (\<exists>extra. r_out_tensors r = out @ extra \<and> extra \<noteq> [] \<and>
                                 length extra \<le> length (elems ! 0)))"
proof (cases impl)
  case None
  with r f show ?thesis by (auto simp: GetNextInternal_def)
next
  case (Some s)
  from r Some obtain st elems eos impl' where
    p: "pull (input d) ctx (nat (batch_size d)) 0 s [] = Some (st, elems, eos, impl')"
    by (auto elim: GetNextInternal_pull)
  from r Some have rs: "rsv (batch_size d mod 2 ^ 64) = None"
    by (auto simp: GetNextInternal_def split: option.splits)
  have n: "impl' = None \<Longrightarrow> st = OK \<and> eos" using pull_absent p by metis
  show ?thesis
  proof (cases "st = OK")
    case False
    with n have "impl' \<noteq> None" by blast
    with False r Some p rs show ?thesis by (auto simp: GetNextInternal_def)
  next
    case True
    with r f Some p rs obtain a where
      a: "copy_components ctx chk (parallel_copy d) elems [0..<length (elems ! 0)] out = Some a"
      and ra: "a_status a \<noteq> OK" "r_out_tensors r = a_out_tensors a" "r_input_impl r = impl'"
         "r_end_of_sequence r = eos"
      by (auto simp: GetNextInternal_def split: if_splits option.splits)
    from copy_components_appends[OF a] ra(1) obtain extra where
      "a_out_tensors a = out @ extra" "length extra \<le> length (elems ! 0)" "extra \<noteq> []"
      by auto
    with True Some p ra n show ?thesis by auto
  qed
qed


subsection \<open>Calls that return a batch\<close>

lemma copy_component_OK:
  assumes a: "copy_component ctx chk par elems c out = Some a" and ok: "a_status a = OK"
  shows "\<exists>first buf.
           element_at elems 0 c = Some first \<and>
           allocator ctx (dtype first) (NumElements (length elems # shape first)) = Some buf \<and>
           (\<forall>i < length elems. fits elems c (shape first) i \<and>
              slot_status chk c elems (length elems # shape first) i = OK) \<and>
           a_out_tensors a = out @
             [\<lparr>dtype = dtype first, shape = length elems # shape first,
               flat = fold (slot_write chk c elems (length elems # shape first))
                        [0..<length elems]
                        (map buf [0..<NumElements (length elems # shape first)])\<rparr>]"
proof (cases "element_at elems 0 c")
  case None
  with a show ?thesis by (simp add: copy_component_no_first)
next
  case (Some first)
  note first = this
  show ?thesis
  proof (cases "allocator ctx (dtype first) (NumElements (length elems # shape first))")
    case None
    from copy_component_oom[OF first None, of chk par out] a ok show ?thesis
      by (auto simp: ResourceExhausted_def)
  next
    case (Some buf)
    show ?thesis
    proof (cases "\<forall>i \<in> set [0..<length elems]. fits elems c (shape first) i")
      case True
      from copy_component_fits[OF first Some True, of chk par out] a ok first Some True
      show ?thesis by auto
    next
      case False
      from first_unfit[OF False] obtain j where j: "j < length elems"
        "\<forall>i \<in> set [0..<j]. fits elems c (shape first) i" "\<not> fits elems c (shape first) j"
        by blast
      show ?thesis
      proof (cases "element_at elems j c")
        case None
        from copy_component_absent[OF first Some j(1,2) None, of chk par out] a
        show ?thesis by simp
      next
        case e: (Some e)
        with j(3) have ne: "shape e \<noteq> shape first" by (auto simp: fits_def)
        from copy_component_mismatch[OF first Some j(1,2) e ne, of chk par out] a ok
        show ?thesis by auto
      qed
    qed
  qed
qed

lemma copy_components_OK:
  "copy_components ctx chk par elems cs out = Some a \<Longrightarrow> a_status a = OK \<Longrightarrow>
   length (a_out_tensors a) = length out + length cs \<and>
   (\<forall>c \<in> set cs. \<exists>first.
      element_at elems 0 c = Some first \<and>
      allocator ctx (dtype first) (NumElements (length elems # shape first)) \<noteq> None \<and>
      (\<forall>i < length elems. fits elems c (shape first) i \<and>
         slot_status chk c elems (length elems # shape first) i = OK))"
proof (induction cs arbitrary: out)
  case Nil
  then show ?case by auto
next
  case (Cons c cs)
  from Cons.prems(1) obtain a1 where a1: "copy_component ctx chk par elems c out = Some a1"
    by (auto split: option.splits)
  show ?case
  proof (cases "a_status a1 = OK")
    case False
    with Cons.prems a1 show ?thesis by simp
  next
    case True
    with Cons.prems(1) a1 have r: "copy_components ctx chk par elems cs (a_out_tensors a1) = Some a"
      by simp
    from copy_component_OK[OF a1 True] obtain first buf where
      f: "element_at elems 0 c = Some first"
         "allocator ctx (dtype first) (NumElements (length elems # shape first)) = Some buf"
         "\<forall>i < length elems. fits elems c (shape first) i \<and>
              slot_status chk c elems (length elems # shape first) i = OK"
      and l: "length (a_out_tensors a1) = Suc (length out)"
      by auto
    from Cons.IH[OF r Cons.prems(2)] f l show ?thesis by auto
  qed
qed

text \<open>A batch is returned whole: when a call returns a batch, every slot of the first
  element has its container, every element pulled has the slot, with the shape of the
  first element's, and every copy has succeeded.\<close>

lemma returned_batch_is_whole:
  assumes r: "GetNextInternal d chk rsv ctx out (Some s) = Returns r"
    and p: "pull (input d) ctx (nat (batch_size d)) 0 s [] = Some (st, elems, eos, impl)"
    and e: "emit r = Batch ts" and ne: "elems \<noteq> []"
  shows "length ts = length out + length (elems ! 0) \<and>
         (\<forall>c < length (elems ! 0).
            allocator ctx (dtype (elems ! 0 ! c))
              (NumElements (length elems # shape (elems ! 0 ! c))) \<noteq> None \<and>
            (\<forall>i < length elems.
               c < length (elems ! i) \<and> shape (elems ! i ! c) = shape (elems ! 0 ! c) \<and>
               chk (elems ! i ! c) (length elems # shape (elems ! 0 ! c)) i = OK))"
proof -
  from r p e ne obtain a where
    a: "copy_components ctx chk (parallel_copy d) elems [0..<length (elems ! 0)] out = Some a"
       "a_status a = OK" "ts = a_out_tensors a"
    by (auto simp: GetNextInternal_def emit_def split: option.splits if_splits)
  from copy_components_OK[OF a(1,2)] have
    l: "length (a_out_tensors a) = length out + length (elems ! 0)" and
    q: "\<forall>c \<in> set [0..<length (elems ! 0)]. \<exists>first.
      element_at elems 0 c = Some first \<and>
      allocator ctx (dtype first) (NumElements (length elems # shape first)) \<noteq> None \<and>
      (\<forall>i < length elems. fits elems c (shape first) i \<and>
         slot_status chk c elems (length elems # shape first) i = OK)"
    by simp_all
  have "allocator ctx (dtype (elems ! 0 ! c))
              (NumElements (length elems # shape (elems ! 0 ! c))) \<noteq> None \<and>
            (\<forall>i < length elems.
               c < length (elems ! i) \<and> shape (elems ! i ! c) = shape (elems ! 0 ! c) \<and>
               chk (elems ! i ! c) (length elems # shape (elems ! 0 ! c)) i = OK)"
    if c: "c < length (elems ! 0)" for c
  proof -
    from c have "c \<in> set [0..<length (elems ! 0)]" by simp
    with q have "\<exists>first.
      element_at elems 0 c = Some first \<and>
      allocator ctx (dtype first) (NumElements (length elems # shape first)) \<noteq> None \<and>
      (\<forall>i < length elems. fits elems c (shape first) i \<and>
         slot_status chk c elems (length elems # shape first) i = OK)"
      by (rule bspec)
    then obtain first where
      f: "element_at elems 0 c = Some first"
         "allocator ctx (dtype first) (NumElements (length elems # shape first)) \<noteq> None"
         "\<forall>i < length elems. fits elems c (shape first) i \<and>
            slot_status chk c elems (length elems # shape first) i = OK"
      by blast
    from f(1) have fe: "first = elems ! 0 ! c"
      by (auto simp: element_at_def split: if_splits)
    have "c < length (elems ! i) \<and> shape (elems ! i ! c) = shape first \<and>
          chk (elems ! i ! c) (length elems # shape first) i = OK" if "i < length elems" for i
      using f(3) that by (auto simp: fits_def element_at_def slot_status_def split: if_splits)
    with f(2) show ?thesis unfolding fe by blast
  qed
  with l a(3) show ?thesis by blast
qed

subsection \<open>Positions in the input\<close>








text \<open>When the loop that pulls leaves \<^verbatim>\<open>input_impl_\<close> absent, a pull has returned the
  end of the sequence from the input.\<close>

lemma pull_eos_upstream:
  "pull inp ctx k i s acc = Some (st, elems, eos, None) \<Longrightarrow>
   \<exists>m t. fst (input_GetNext inp ctx (input_state_after inp ctx m s)) = (OK, t, True)"
proof (induction k arbitrary: i s acc)
  case 0
  then show ?case by simp
next
  case (Suc k)
  obtain st1 t eos1 s' where g: "input_GetNext inp ctx s = ((st1, t, eos1), s')"
    by (metis prod_cases3 surj_pair)
  show ?case
  proof (cases "st1 = OK \<and> \<not> eos1")
    case True
    with Suc.prems g have "pull inp ctx k (i + 1) s' (acc @ [t]) = Some (st, elems, eos, None)"
      by (simp split: if_splits)
    from Suc.IH[OF this] obtain m t' where
      "fst (input_GetNext inp ctx (input_state_after inp ctx m s')) = (OK, t', True)" by blast
    with g have "fst (input_GetNext inp ctx (input_state_after inp ctx (Suc m) s)) = (OK, t', True)"
      by simp
    then show ?thesis by blast
  next
    case False
    with Suc.prems g have "fst (input_GetNext inp ctx (input_state_after inp ctx 0 s)) = (OK, t, True)"
      by (auto split: if_splits)
    then show ?thesis by blast
  qed
qed

subsection \<open>The first mismatch\<close>

lemma copy_components_prefix:
  assumes "\<forall>c' \<in> set cs1. \<exists>t. \<forall>out. copy_component ctx chk par elems c' out =
             Some \<lparr>a_status = OK, a_out_tensors = out @ [t], a_unjoined = []\<rparr>"
  shows "\<exists>out'. copy_components ctx chk par elems (cs1 @ cs2) out =
                 copy_components ctx chk par elems cs2 out'"
  using assms
proof (induction cs1 arbitrary: out)
  case Nil
  then show ?case by auto
next
  case (Cons c cs1)
  from Cons.prems obtain t where
    t: "\<And>out. copy_component ctx chk par elems c out =
          Some \<lparr>a_status = OK, a_out_tensors = out @ [t], a_unjoined = []\<rparr>"
    by auto
  from Cons.prems have rest: "\<forall>c' \<in> set cs1. \<exists>t. \<forall>out. copy_component ctx chk par elems c' out =
             Some \<lparr>a_status = OK, a_out_tensors = out @ [t], a_unjoined = []\<rparr>"
    by simp
  from Cons.IH[OF rest, of "out @ [t]"] show ?case by (simp add: t)
qed

lemma copy_component_succeeds:
  assumes ne: "elems \<noteq> []"
    and alloc: "allocator ctx (dtype (elems ! 0 ! c))
                  (NumElements (length elems # shape (elems ! 0 ! c))) \<noteq> None"
    and all: "\<forall>i < length elems. c < length (elems ! i) \<and>
                shape (elems ! i ! c) = shape (elems ! 0 ! c) \<and>
                chk (elems ! i ! c) (length elems # shape (elems ! 0 ! c)) i = OK"
  shows "\<exists>t. \<forall>out. copy_component ctx chk par elems c out =
           Some \<lparr>a_status = OK, a_out_tensors = out @ [t], a_unjoined = []\<rparr>"
proof -
  from ne have n0: "0 < length elems" by simp
  with all have first: "element_at elems 0 c = Some (elems ! 0 ! c)"
    by (simp add: element_at_def)
  from alloc obtain buf where buf: "allocator ctx (dtype (elems ! 0 ! c))
                  (NumElements (length elems # shape (elems ! 0 ! c))) = Some buf" by auto
  have fits: "\<forall>i \<in> set [0..<length elems]. fits elems c (shape (elems ! 0 ! c)) i"
    using all by (auto simp: fits_def element_at_def)
  have ok: "\<forall>i < length elems. slot_status chk c elems (length elems # shape (elems ! 0 ! c)) i = OK"
    using all by (simp add: slot_status_def)
  have "\<forall>out. copy_component ctx chk par elems c out =
           Some \<lparr>a_status = OK, a_out_tensors = out @
             [\<lparr>dtype = dtype (elems ! 0 ! c), shape = length elems # shape (elems ! 0 ! c),
               flat = fold (slot_write chk c elems (length elems # shape (elems ! 0 ! c)))
                        [0..<length elems]
                        (map buf [0..<NumElements (length elems # shape (elems ! 0 ! c))])\<rparr>],
             a_unjoined = []\<rparr>"
  proof
    fix out
    from copy_component_fits[OF first buf fits, of chk par out] ok
    show "copy_component ctx chk par elems c out =
           Some \<lparr>a_status = OK, a_out_tensors = out @
             [\<lparr>dtype = dtype (elems ! 0 ! c), shape = length elems # shape (elems ! 0 ! c),
               flat = fold (slot_write chk c elems (length elems # shape (elems ! 0 ! c)))
                        [0..<length elems]
                        (map buf [0..<NumElements (length elems # shape (elems ! 0 ! c))])\<rparr>],
             a_unjoined = []\<rparr>"
      by auto
  qed
  then show ?thesis by blast
qed

lemma first_mismatch:
  assumes rs: "rsv (batch_size d mod 2 ^ 64) = None"
    and p: "pull (input d) ctx (nat (batch_size d)) 0 s [] = Some (OK, elems, eos, impl')"
    and ne: "elems \<noteq> []"
    and nd: "\<not> (drop_remainder d \<and>
                int (length elems) mod 2 ^ 64 < batch_size d mod 2 ^ 64)"
    and c: "c < length (elems ! 0)"
    and before: "\<forall>c' < c. \<forall>i < length elems. c' < length (elems ! i) \<and>
                   shape (elems ! i ! c') = shape (elems ! 0 ! c') \<and>
                   chk (elems ! i ! c') (length elems # shape (elems ! 0 ! c')) i = OK"
    and alloc: "\<forall>c' \<le> c. allocator ctx (dtype (elems ! 0 ! c'))
                   (NumElements (length elems # shape (elems ! 0 ! c'))) \<noteq> None"
    and j: "j < length elems"
    and jb: "\<forall>i < j. c < length (elems ! i) \<and> shape (elems ! i ! c) = shape (elems ! 0 ! c)"
    and je: "c < length (elems ! j)" "shape (elems ! j ! c) \<noteq> shape (elems ! 0 ! c)"
  shows "\<exists>r. GetNextInternal d chk rsv ctx out (Some s) = Returns r \<and>
           r_status r = mismatch c (shape (elems ! 0 ! c)) j (shape (elems ! j ! c)) \<and>
           r_unjoined r =
             (if parallel_copy d then filter (\<lambda>i. \<not> prompt ctx c i) [0..<j] else [])"
proof -
  let ?par = "parallel_copy d"
  have pre: "\<forall>c' \<in> set [0..<c]. \<exists>t. \<forall>out. copy_component ctx chk ?par elems c' out =
             Some \<lparr>a_status = OK, a_out_tensors = out @ [t], a_unjoined = []\<rparr>"
  proof
    fix c' assume "c' \<in> set [0..<c]"
    then have c': "c' < c" by simp
    show "\<exists>t. \<forall>out. copy_component ctx chk ?par elems c' out =
             Some \<lparr>a_status = OK, a_out_tensors = out @ [t], a_unjoined = []\<rparr>"
    proof (rule copy_component_succeeds[OF ne])
      show "allocator ctx (dtype (elems ! 0 ! c'))
              (NumElements (length elems # shape (elems ! 0 ! c'))) \<noteq> None"
        using alloc c' by simp
      show "\<forall>i < length elems. c' < length (elems ! i) \<and>
                shape (elems ! i ! c') = shape (elems ! 0 ! c') \<and>
                chk (elems ! i ! c') (length elems # shape (elems ! 0 ! c')) i = OK"
        using before c' by blast
    qed
  qed
  have sp: "[0..<length (elems ! 0)] = [0..<c] @ c # [Suc c..<length (elems ! 0)]"
    by (rule upt_split[OF c])
  from copy_components_prefix[OF pre, of "c # [Suc c..<length (elems ! 0)]" out]
  obtain out' where "copy_components ctx chk ?par elems ([0..<c] @ c # [Suc c..<length (elems ! 0)]) out =
      copy_components ctx chk ?par elems (c # [Suc c..<length (elems ! 0)]) out'"
    by blast
  then have o: "copy_components ctx chk ?par elems [0..<length (elems ! 0)] out =
      copy_components ctx chk ?par elems (c # [Suc c..<length (elems ! 0)]) out'"
    by (simp only: sp[symmetric])
  from ne have n0: "0 < length elems" by simp
  from c n0 have first: "element_at elems 0 c = Some (elems ! 0 ! c)"
    by (simp add: element_at_def)
  from alloc obtain buf where buf: "allocator ctx (dtype (elems ! 0 ! c))
                  (NumElements (length elems # shape (elems ! 0 ! c))) = Some buf" by auto
  have fits: "\<forall>i \<in> set [0..<j]. fits elems c (shape (elems ! 0 ! c)) i"
  proof
    fix i assume "i \<in> set [0..<j]"
    then have ij: "i < j" by simp
    with j have "i < length elems" by simp
    moreover from jb ij have "c < length (elems ! i)"
      "shape (elems ! i ! c) = shape (elems ! 0 ! c)" by blast+
    ultimately show "fits elems c (shape (elems ! 0 ! c)) i"
      by (simp add: fits_def element_at_def)
  qed
  have e: "element_at elems j c = Some (elems ! j ! c)"
    using j je by (simp add: element_at_def)
  from copy_component_mismatch[OF first buf j fits e je(2), of chk ?par out']
  obtain t where "copy_component ctx chk ?par elems c out' =
           Some \<lparr>a_status = mismatch c (shape (elems ! 0 ! c)) j (shape (elems ! j ! c)),
                 a_out_tensors = out' @ [t],
                 a_unjoined = (if ?par then filter (\<lambda>i. \<not> prompt ctx c i) [0..<j] else [])\<rparr>" by blast
  then have "copy_components ctx chk ?par elems [0..<length (elems ! 0)] out =
           Some \<lparr>a_status = mismatch c (shape (elems ! 0 ! c)) j (shape (elems ! j ! c)),
                 a_out_tensors = out' @ [t],
                 a_unjoined = (if ?par then filter (\<lambda>i. \<not> prompt ctx c i) [0..<j] else [])\<rparr>"
    by (simp add: o)
  with p ne nd rs show ?thesis
    by (cases "parallel_copy d"; cases "drop_remainder d") (simp_all add: GetNextInternal_def)
qed


subsection \<open>The loop counter\<close>

lemma vector_input_GetNext:
  "input_GetNext (vector_input xs) ctx i =
     (if i < length xs then ((OK, xs ! i, False), Suc i) else ((OK, [], True), i))"
  by (simp add: vector_input_def)

lemma pull_counter_overflow:
  assumes l: "length xs = 2147483647"
  shows "i \<le> 2147483647 \<Longrightarrow> 2147483648 \<le> k + i \<Longrightarrow>
         pull (vector_input xs) ctx k (int i) i acc = None"
proof (induction k arbitrary: i acc)
  case 0
  then show ?case by simp
next
  case (Suc k)
  show ?case
  proof (cases "i = 2147483647")
    case True
    with l show ?thesis by (simp add: vector_input_GetNext)
  next
    case False
    with Suc.prems have lt: "i < 2147483647" by simp
    then have 1: "Suc i \<le> 2147483647" by simp
    from Suc.prems have 2: "2147483648 \<le> k + Suc i" by simp
    from Suc.IH[OF 1 2, of "acc @ [xs ! i]"]
    have ih: "pull (vector_input xs) ctx k (int i + 1) (Suc i) (acc @ [xs ! i]) = None"
      by (simp add: add.commute)
    from lt have ne: "int i \<noteq> 2147483647" by simp
    show ?thesis
      using lt l ne by (simp add: vector_input_GetNext ih)
  qed
qed

text \<open>With a batch size of \<open>2^31\<close> on a host that can reserve as much, and an input of
  \<open>2^31 - 1\<close> elements, the loop pulls the end of the sequence with its counter at
  \<open>2^31 - 1\<close> and increments it: the call is undefined.\<close>

lemma counter_overflow:
  assumes "rsv (2 ^ 31) = None" and "length xs = 2 ^ 31 - 1"
  shows "GetNextInternal (Dataset_ctor (2 ^ 31) dr pc (vector_input xs)) chk rsv ctx out (Some 0) =
           Undefined"
proof -
  from assms(2) have l: "length xs = 2147483647" by simp
  have "pull (vector_input xs) ctx 2147483648 (int 0) 0 [] = None"
    by (rule pull_counter_overflow[OF l]) simp_all
  with assms(1) show ?thesis
    unfolding GetNextInternal_def Dataset_ctor_def by simp
qed


section \<open>The claims about the iterator\<close>

text \<open>
  C2, as the code has it. Let the input iterator yield exactly the \<open>n\<close> elements \<open>xs\<close>
  and then the end of the sequence, let the batch size \<open>b > 0\<close> be an \<^verbatim>\<open>int64\<close>, and
  let every batch that the \<open>m\<close> calls are to emit assemble: within the batch the elements
  have the shapes of its first element, slot by slot (and their tensors hold as many
  values as their shapes say), its containers can be allocated and its copies do not
  fail; and let \<^verbatim>\<open>reserve\<close> not throw for \<open>b\<close>. Let the loop's \<^verbatim>\<open>int\<close> counter
  stay in its range: \<open>b < 2^31\<close>, or \<open>n < 2^31 - 1\<close>. Then \<open>m\<close> calls return the specification's batches in order, each the
  stacked elements of the batch, and then only ends of sequence; there are \<open>\<lfloor>n/b\<rfloor>\<close> full
  batches, the \<open>k\<close>-th being the \<open>b\<close> elements from position \<open>k b\<close>, and one more batch,
  the last \<open>n mod b\<close> elements, exactly when \<^verbatim>\<open>drop_remainder\<close> is false and
  \<open>n mod b \<noteq> 0\<close>.
\<close>

theorem batches_of_sequence:
  fixes d :: "'s Dataset"
  defines "b \<equiv> nat (batch_size d)"
  defines "batches \<equiv> \<lambda>xs. spec_batches b (drop_remainder d) (Suc (length xs)) xs"
  assumes "yields (input d) ctx s xs"
    and "0 < batch_size d" and "batch_size d < 2 ^ 63"
    and "batch_size d < 2 ^ 31 \<or> int (length xs) < 2 ^ 31 - 1"
    and "rsv (batch_size d) = None"
    and "\<forall>es \<in> set (take m (batches xs)). assembles ctx chk es"
  shows "map (map_outcome emit) (GetNext_calls d chk rsv (replicate m ctx) (Some s)) =
           take m (map (\<lambda>es. Returns (Batch (stacked es))) (batches xs)
                   @ replicate m (Returns EndOfSequence)) \<and>
         length (batches xs) =
           length xs div b + (if \<not> drop_remainder d \<and> length xs mod b \<noteq> 0 then 1 else 0) \<and>
         (\<forall>k < length xs div b. batches xs ! k = take b (drop (k * b) xs)) \<and>
         (\<not> drop_remainder d \<and> length xs mod b \<noteq> 0 \<longrightarrow>
            batches xs ! (length xs div b) = drop (length xs div b * b) xs)"
proof -
  have b0: "0 < b" using assms(4) by (simp add: b_def)
  have f: "length xs < Suc (length xs)" by simp
  have 1: "map (map_outcome emit) (GetNext_calls d chk rsv (replicate m ctx) (Some s)) =
           take m (map (\<lambda>es. Returns (Batch (stacked es))) (batches xs)
                   @ replicate m (Returns EndOfSequence))"
    unfolding batches_def b_def
    apply (rule calls_yields[where d = d and ctx = ctx and s = s and xs = xs
             and fuel = "Suc (length xs)"])
         apply (rule assms(4))
        apply (rule assms(5))
       apply (rule assms(7))
      apply (rule assms(3))
     apply (rule assms(6))
    apply (rule assms(8)[unfolded batches_def b_def])
    apply (rule f)
    done
  have 2: "length (batches xs) =
           length xs div b + (if \<not> drop_remainder d \<and> length xs mod b \<noteq> 0 then 1 else 0)"
    unfolding batches_def by (rule spec_batches_length[OF b0 f])
  have 3: "\<forall>k < length xs div b. batches xs ! k = take b (drop (k * b) xs)"
    unfolding batches_def using spec_batches_nth[OF b0 f] by blast
  have 4: "\<not> drop_remainder d \<and> length xs mod b \<noteq> 0 \<longrightarrow>
            batches xs ! (length xs div b) = drop (length xs div b * b) xs"
    unfolding batches_def using spec_batches_last[OF b0 f] by blast
  from 1 2 3 4 show ?thesis by blast
qed

text \<open>The specification's example: seven elements, batches of three, the remainder
  dropped: two batches, then the end of the sequence. And five elements of shapes (2),
  (2), (3), (3), (3) in batches of two: the shapes agree within each batch, and the calls
  return three batches, then the end of the sequence.\<close>

theorem batches_of_sequence_witness:
  "map (map_outcome emit)
     (GetNext_calls (Dataset_ctor 3 True False (vector_input elements7)) copy_ok reserve_ok
        (replicate 4 ctx_ok) (Some 0)) =
   [Returns (Batch [\<lparr>dtype = 1, shape = [3, 2], flat = [1, 2, 2, 3, 3, 4]\<rparr>,
                    \<lparr>dtype = 1, shape = [3], flat = [1, 2, 3]\<rparr>]),
    Returns (Batch [\<lparr>dtype = 1, shape = [3, 2], flat = [4, 5, 5, 6, 6, 7]\<rparr>,
                    \<lparr>dtype = 1, shape = [3], flat = [4, 5, 6]\<rparr>]),
    Returns EndOfSequence, Returns EndOfSequence] \<and>
   map (map_outcome emit)
     (GetNext_calls (Dataset_ctor 2 False False (vector_input elements5)) copy_ok reserve_ok
        (replicate 4 ctx_ok) (Some 0)) =
   [Returns (Batch [\<lparr>dtype = 1, shape = [2, 2], flat = [1, 2, 3, 4]\<rparr>]),
    Returns (Batch [\<lparr>dtype = 1, shape = [2, 3], flat = [5, 6, 7, 8, 9, 10]\<rparr>]),
    Returns (Batch [\<lparr>dtype = 1, shape = [1, 3], flat = [11, 12, 13]\<rparr>]),
    Returns EndOfSequence]"
proof -
  let ?d = "Dataset_ctor 3 True False (vector_input elements7)"
  have y: "yields (input ?d) ctx_ok 0 elements7" by code_simp
  have b: "0 < batch_size ?d" "batch_size ?d < 2 ^ 63"
    "batch_size ?d < 2 ^ 31 \<or> int (length elements7) < 2 ^ 31 - 1"
    by (simp_all add: Dataset_ctor_def)
  have r: "reserve_ok (batch_size ?d) = None"
    by (simp add: Dataset_ctor_def reserve_ok_def vector_reserve_def)
  have c: "\<forall>es \<in> set (take 4 (spec_batches (nat (batch_size ?d)) (drop_remainder ?d)
                                  (Suc (length elements7)) elements7)).
             assembles ctx_ok copy_ok es"
    by code_simp
  have e: "take 4 (map (\<lambda>es. Returns (Batch (stacked es)))
               (spec_batches (nat (batch_size ?d)) (drop_remainder ?d)
                  (Suc (length elements7)) elements7)
             @ replicate 4 (Returns EndOfSequence)) =
     [Returns (Batch [\<lparr>dtype = 1, shape = [3, 2], flat = [1, 2, 2, 3, 3, 4]\<rparr>,
                      \<lparr>dtype = 1, shape = [3], flat = [1, 2, 3]\<rparr>]),
      Returns (Batch [\<lparr>dtype = 1, shape = [3, 2], flat = [4, 5, 5, 6, 6, 7]\<rparr>,
                      \<lparr>dtype = 1, shape = [3], flat = [4, 5, 6]\<rparr>]),
      Returns EndOfSequence, Returns EndOfSequence]"
    by code_simp
  have "map (map_outcome emit) (GetNext_calls ?d copy_ok reserve_ok (replicate 4 ctx_ok) (Some 0)) =
        take 4 (map (\<lambda>es. Returns (Batch (stacked es)))
               (spec_batches (nat (batch_size ?d)) (drop_remainder ?d)
                  (Suc (length elements7)) elements7)
             @ replicate 4 (Returns EndOfSequence))"
    apply (rule conjunct1[OF batches_of_sequence[where d = ?d and ctx = ctx_ok and s = 0
             and xs = elements7 and rsv = reserve_ok and chk = copy_ok and m = 4]])
         apply (rule y)
        apply (rule b(1))
       apply (rule b(2))
      apply (rule b(3))
     apply (rule r)
    apply (rule c)
    done
  with e have 1: "map (map_outcome emit)
       (GetNext_calls ?d copy_ok reserve_ok (replicate 4 ctx_ok) (Some 0)) =
     [Returns (Batch [\<lparr>dtype = 1, shape = [3, 2], flat = [1, 2, 2, 3, 3, 4]\<rparr>,
                      \<lparr>dtype = 1, shape = [3], flat = [1, 2, 3]\<rparr>]),
      Returns (Batch [\<lparr>dtype = 1, shape = [3, 2], flat = [4, 5, 5, 6, 6, 7]\<rparr>,
                      \<lparr>dtype = 1, shape = [3], flat = [4, 5, 6]\<rparr>]),
      Returns EndOfSequence, Returns EndOfSequence]"
    by simp
  let ?d' = "Dataset_ctor 2 False False (vector_input elements5)"
  have y': "yields (input ?d') ctx_ok 0 elements5" by code_simp
  have b': "0 < batch_size ?d'" "batch_size ?d' < 2 ^ 63"
    "batch_size ?d' < 2 ^ 31 \<or> int (length elements5) < 2 ^ 31 - 1"
    by (simp_all add: Dataset_ctor_def)
  have r': "reserve_ok (batch_size ?d') = None"
    by (simp add: Dataset_ctor_def reserve_ok_def vector_reserve_def)
  have c': "\<forall>es \<in> set (take 4 (spec_batches (nat (batch_size ?d')) (drop_remainder ?d')
                                  (Suc (length elements5)) elements5)).
             assembles ctx_ok copy_ok es"
    by code_simp
  have e': "take 4 (map (\<lambda>es. Returns (Batch (stacked es)))
               (spec_batches (nat (batch_size ?d')) (drop_remainder ?d')
                  (Suc (length elements5)) elements5)
             @ replicate 4 (Returns EndOfSequence)) =
     [Returns (Batch [\<lparr>dtype = 1, shape = [2, 2], flat = [1, 2, 3, 4]\<rparr>]),
      Returns (Batch [\<lparr>dtype = 1, shape = [2, 3], flat = [5, 6, 7, 8, 9, 10]\<rparr>]),
      Returns (Batch [\<lparr>dtype = 1, shape = [1, 3], flat = [11, 12, 13]\<rparr>]),
      Returns EndOfSequence]"
    by code_simp
  have "map (map_outcome emit)
          (GetNext_calls ?d' copy_ok reserve_ok (replicate 4 ctx_ok) (Some 0)) =
        take 4 (map (\<lambda>es. Returns (Batch (stacked es)))
               (spec_batches (nat (batch_size ?d')) (drop_remainder ?d')
                  (Suc (length elements5)) elements5)
             @ replicate 4 (Returns EndOfSequence))"
    apply (rule conjunct1[OF batches_of_sequence[where d = ?d' and ctx = ctx_ok and s = 0
             and xs = elements5 and rsv = reserve_ok and chk = copy_ok and m = 4]])
         apply (rule y')
        apply (rule b'(1))
       apply (rule b'(2))
      apply (rule b'(3))
     apply (rule r')
    apply (rule c')
    done
  with e' have 2: "map (map_outcome emit)
       (GetNext_calls ?d' copy_ok reserve_ok (replicate 4 ctx_ok) (Some 0)) =
     [Returns (Batch [\<lparr>dtype = 1, shape = [2, 2], flat = [1, 2, 3, 4]\<rparr>]),
      Returns (Batch [\<lparr>dtype = 1, shape = [2, 3], flat = [5, 6, 7, 8, 9, 10]\<rparr>]),
      Returns (Batch [\<lparr>dtype = 1, shape = [1, 3], flat = [11, 12, 13]\<rparr>]),
      Returns EndOfSequence]"
    by simp
  from 1 2 show ?thesis by blast
qed

text \<open>C2 as stated fails. Three elements in a batch of three whose third element has
  another shape: the input yields exactly these three elements, and the calls return a
  failure and the end of the sequence, and no batch. Seven elements in batches of three
  with an allocator that fails, or with copies that fail: three failures and the end of
  the sequence. And a batch size of \<open>2^62\<close>, beyond \<^verbatim>\<open>max_size()\<close>: every call throws
  \<^verbatim>\<open>std::length_error\<close> from \<^verbatim>\<open>reserve\<close>.\<close>

theorem batches_of_sequence_counterexample:
  "yields (vector_input elements3) ctx_ok 0 elements3 \<and>
   map (map_outcome emit)
     (GetNext_calls (Dataset_ctor 3 False False (vector_input elements3)) copy_ok reserve_ok
        [ctx_ok, ctx_ok] (Some 0)) =
   [Returns Failure, Returns EndOfSequence] \<and>
   yields (vector_input elements7) ctx_oom 0 elements7 \<and>
   map (map_outcome emit)
     (GetNext_calls (Dataset_ctor 3 False False (vector_input elements7)) copy_ok reserve_ok
        [ctx_oom, ctx_oom, ctx_oom, ctx_oom] (Some 0)) =
   [Returns Failure, Returns Failure, Returns Failure, Returns EndOfSequence] \<and>
   map (map_outcome emit)
     (GetNext_calls (Dataset_ctor 3 False False (vector_input elements7)) copy_fails reserve_ok
        [ctx_ok, ctx_ok, ctx_ok, ctx_ok] (Some 0)) =
   [Returns Failure, Returns Failure, Returns Failure, Returns EndOfSequence] \<and>
   GetNext_calls (Dataset_ctor (2 ^ 62) False False (vector_input elements7)) copy_ok
     reserve_ok [ctx_ok, ctx_ok] (Some 0) =
   [Throws length_error, Throws length_error]"
proof -
  have a: "yields (vector_input elements3) ctx_ok 0 elements3 \<and>
     map (map_outcome emit)
       (GetNext_calls (Dataset_ctor 3 False False (vector_input elements3)) copy_ok reserve_ok
          [ctx_ok, ctx_ok] (Some 0)) =
     [Returns Failure, Returns EndOfSequence]"
    by code_simp
  have b: "yields (vector_input elements7) ctx_oom 0 elements7 \<and>
     map (map_outcome emit)
       (GetNext_calls (Dataset_ctor 3 False False (vector_input elements7)) copy_ok reserve_ok
          [ctx_oom, ctx_oom, ctx_oom, ctx_oom] (Some 0)) =
     [Returns Failure, Returns Failure, Returns Failure, Returns EndOfSequence]"
    by code_simp
  have c: "map (map_outcome emit)
     (GetNext_calls (Dataset_ctor 3 False False (vector_input elements7)) copy_fails reserve_ok
        [ctx_ok, ctx_ok, ctx_ok, ctx_ok] (Some 0)) =
     [Returns Failure, Returns Failure, Returns Failure, Returns EndOfSequence]"
    by code_simp
  have "GetNextInternal (Dataset_ctor (2 ^ 62) False False (vector_input elements7)) copy_ok
          reserve_ok ctx_ok [] (Some 0) = Throws length_error"
    by (simp add: GetNextInternal_def Dataset_ctor_def reserve_ok_def vector_reserve_def)
  then have e: "GetNext_calls (Dataset_ctor (2 ^ 62) False False (vector_input elements7))
       copy_ok reserve_ok [ctx_ok, ctx_ok] (Some 0) =
     [Throws length_error, Throws length_error]"
    by simp
  from a b c e show ?thesis by blast
qed

text \<open>
  C3, as the code has it. Let a call have reserved and pulled the elements \<open>elems\<close> of a
  batch that is not dropped, and let \<open>c\<close> be the first slot with a mismatch: in every slot
  before \<open>c\<close> all elements have the shape of element 0 and no copy fails, the allocator
  does not fail for the slots up to \<open>c\<close>, and \<open>j\<close> is the first element whose value for
  slot \<open>c\<close> has another shape than element 0's. Then the call fails with InvalidArgument,
  and the message reports \<open>c\<close>, the shape of element 0, \<open>j\<close> and the shape of element
  \<open>j\<close>, in both modes of copying.
\<close>

theorem first_mismatch_is_reported:
  assumes "rsv (batch_size d mod 2 ^ 64) = None"
    and "pull (input d) ctx (nat (batch_size d)) 0 s [] = Some (OK, elems, eos, impl')"
    and "elems \<noteq> []"
    and "\<not> (drop_remainder d \<and>
            int (length elems) mod 2 ^ 64 < batch_size d mod 2 ^ 64)"
    and "c < length (elems ! 0)"
    and "\<forall>c' < c. \<forall>i < length elems. c' < length (elems ! i) \<and>
           shape (elems ! i ! c') = shape (elems ! 0 ! c') \<and>
           chk (elems ! i ! c') (length elems # shape (elems ! 0 ! c')) i = OK"
    and "\<forall>c' \<le> c. allocator ctx (dtype (elems ! 0 ! c'))
           (NumElements (length elems # shape (elems ! 0 ! c'))) \<noteq> None"
    and "j < length elems"
    and "\<forall>i < j. c < length (elems ! i) \<and> shape (elems ! i ! c) = shape (elems ! 0 ! c)"
    and "c < length (elems ! j)" and "shape (elems ! j ! c) \<noteq> shape (elems ! 0 ! c)"
  shows "\<exists>r. GetNextInternal d chk rsv ctx out (Some s) = Returns r \<and>
           r_status r = Error INVALID_ARGUMENT
             [Str ''Cannot batch tensors with different shapes in component '',
              Num c, Str ''. First element had shape '',
              DebugString (shape (elems ! 0 ! c)), Str '' and element '', Num j,
              Str '' had shape '', DebugString (shape (elems ! j ! c)), Str ''.'']"
  using first_mismatch[where rsv = rsv and out = out, OF assms]
  by (auto simp: mismatch_def InvalidArgument_def)

text \<open>The specification's example: one slot with shapes (2,3), (2,3), (2,4); the failure
  names component 0 and element 2.\<close>

theorem first_mismatch_is_reported_witness:
  "map_outcome r_status
     (GetNextInternal (Dataset_ctor 3 False False (vector_input elements3)) copy_ok reserve_ok
        ctx_ok [] (Some 0)) =
   Returns (Error INVALID_ARGUMENT
             [Str ''Cannot batch tensors with different shapes in component '',
              Num 0, Str ''. First element had shape '',
              DebugString [2, 3], Str '' and element '', Num 2,
              Str '' had shape '', DebugString [2, 4], Str ''.''])"
proof -
  let ?d = "Dataset_ctor 3 False False (vector_input elements3)"
  have r: "reserve_ok (batch_size ?d mod 2 ^ 64) = None"
    by (simp add: Dataset_ctor_def reserve_ok_def vector_reserve_def)
  have p: "pull (input ?d) ctx_ok (nat (batch_size ?d)) 0 0 [] =
             Some (OK, elements3, False, Some 3)"
    by code_simp
  have 1: "elements3 \<noteq> []" by code_simp
  have 2: "\<not> (drop_remainder ?d \<and>
            int (length elements3) mod 2 ^ 64 < batch_size ?d mod 2 ^ 64)"
    by (simp add: Dataset_ctor_def)
  have 3: "0 < length (elements3 ! 0)" by code_simp
  have 4: "\<forall>c' < 0. \<forall>i < length elements3. c' < length (elements3 ! i) \<and>
           shape (elements3 ! i ! c') = shape (elements3 ! 0 ! c') \<and>
           copy_ok (elements3 ! i ! c') (length elements3 # shape (elements3 ! 0 ! c')) i = OK"
    by simp
  have 5: "\<forall>c' \<le> 0. allocator ctx_ok (dtype (elements3 ! 0 ! c'))
           (NumElements (length elements3 # shape (elements3 ! 0 ! c'))) \<noteq> None"
    by (simp add: ctx_ok_def)
  have 6: "2 < length elements3" by code_simp
  have 7: "\<forall>i < 2. 0 < length (elements3 ! i) \<and>
             shape (elements3 ! i ! 0) = shape (elements3 ! 0 ! 0)"
    by (simp add: elements3_def tensor_def less_Suc_eq numeral_2_eq_2)
  have 8: "0 < length (elements3 ! 2)" by code_simp
  have 9: "shape (elements3 ! 2 ! 0) \<noteq> shape (elements3 ! 0 ! 0)" by code_simp
  have s: "shape (elements3 ! 0 ! 0) = [2, 3]" "shape (elements3 ! 2 ! 0) = [2, 4]"
    by code_simp+
  from first_mismatch_is_reported[where rsv = reserve_ok and out = "[]", OF r p 1 2 3 4 5 6 7 8 9]
  show ?thesis
    by (auto simp: s)
qed

text \<open>C3 as stated fails. With the same three elements and an allocator that fails, the
  call fails with ResourceExhausted, not InvalidArgument. And with two elements whose
  shapes differ in slot 0 and in slot 1, the failure names slot 0 and its shapes, not
  slot 1.\<close>

theorem mismatch_report_counterexample:
  "map_outcome r_status
     (GetNextInternal (Dataset_ctor 3 False False (vector_input elements3)) copy_ok reserve_ok
        ctx_oom [] (Some 0)) =
   Returns (Error RESOURCE_EXHAUSTED
           [Str ''Failed to allocate memory for the batch of component '', Num 0]) \<and>
   shape (elements2 ! 1 ! 1) \<noteq> shape (elements2 ! 0 ! 1) \<and>
   map_outcome r_status
     (GetNextInternal (Dataset_ctor 2 False False (vector_input elements2)) copy_ok reserve_ok
        ctx_ok [] (Some 0)) =
   Returns (Error INVALID_ARGUMENT
             [Str ''Cannot batch tensors with different shapes in component '',
              Num 0, Str ''. First element had shape '',
              DebugString [2], Str '' and element '', Num 1,
              Str '' had shape '', DebugString [3], Str ''.''])"
  by code_simp

text \<open>
  C4 fails on the code. With \<^verbatim>\<open>parallel_copy\<close> true and the three elements of shapes
  (2,3), (2,3), (2,4), the closures for indices 0 and 1 have been handed to the runner
  when the loop finds the mismatch at index 2 and returns InvalidArgument at once: the
  function returns with both closures not awaited (\<^verbatim>\<open>counter.Wait()\<close> is not reached),
  and with a runner that has completed neither of them the container is as allocated.
\<close>

theorem parallel_mismatch_returns_unjoined:
  "GetNextInternal (Dataset_ctor 3 False True (vector_input elements3)) copy_ok reserve_ok
     ctx_ok [] (Some 0) =
   Returns \<lparr>r_status = Error INVALID_ARGUMENT
             [Str ''Cannot batch tensors with different shapes in component '',
              Num 0, Str ''. First element had shape '',
              DebugString [2, 3], Str '' and element '', Num 2,
              Str '' had shape '', DebugString [2, 4], Str ''.''],
         r_out_tensors =
           [\<lparr>dtype = 1, shape = [3, 2, 3],
             flat = [0, 0, 0, 0, 0, 0, 0, 0, 0, 0, 0, 0, 0, 0, 0, 0, 0, 0]\<rparr>],
         r_end_of_sequence = False, r_input_impl = Some 3, r_unjoined = [0, 1]\<rparr>"
  by code_simp


text \<open>
  C5. A call that returns a status other than OK gives its caller a failure and no batch:
  the caller reads the tensors only under an OK status. Such a call started with
  \<^verbatim>\<open>input_impl_\<close> present and leaves it as the loop that pulls left it: the assembly,
  where the shape, allocation and copy errors arise, does not touch it. When the error is
  the input's, the status is the input's and \<^verbatim>\<open>input_impl_\<close> stays present.
  \<^verbatim>\<open>input_impl_\<close> is absent afterwards only if a pull of this call has returned the end
  of the sequence from the input.
\<close>

theorem error_return_state:
  assumes "GetNextInternal d chk rsv ctx out impl = Returns r" and "r_status r \<noteq> OK"
  shows "emit r = Failure \<and>
         (\<exists>s st elems eos impl'.
            impl = Some s \<and>
            pull (input d) ctx (nat (batch_size d)) 0 s [] = Some (st, elems, eos, impl') \<and>
            r_input_impl r = impl' \<and>
            (st \<noteq> OK \<longrightarrow> r_status r = st \<and> r_input_impl r \<noteq> None) \<and>
            (r_input_impl r = None \<longrightarrow>
               (\<exists>m t. fst (input_GetNext (input d) ctx
                              (input_state_after (input d) ctx m s)) = (OK, t, True))))"
proof -
  from error_return[OF assms] obtain s st elems eos impl' where
    h: "impl = Some s"
       "pull (input d) ctx (nat (batch_size d)) 0 s [] = Some (st, elems, eos, impl')"
       "r_input_impl r = impl'"
       "st \<noteq> OK \<longrightarrow> r_status r = st \<and> r_out_tensors r = out \<and> r_input_impl r \<noteq> None"
    by blast
  have "\<exists>m t. fst (input_GetNext (input d) ctx
                   (input_state_after (input d) ctx m s)) = (OK, t, True)"
    if "r_input_impl r = None"
    using pull_eos_upstream[of "input d" ctx "nat (batch_size d)" 0 s "[]" st elems eos]
      h(2,3) that by simp
  with h assms(2) show ?thesis by (auto simp: emit_def)
qed

text \<open>The call that fails on the third of three elements, copying sequentially, leaves
  the input behind the three elements.\<close>

theorem error_return_state_witness:
  "(case GetNextInternal (Dataset_ctor 3 False False (vector_input elements3)) copy_ok
           reserve_ok ctx_ok [] (Some 0) of
      Returns r \<Rightarrow> r_status r \<noteq> OK \<and> emit r = Failure \<and> r_input_impl r = Some 3
    | Throws e \<Rightarrow> False
    | Undefined \<Rightarrow> False) \<and>
   pull (vector_input elements3) ctx_ok 3 0 0 [] = Some (OK, elements3, False, Some 3)"
proof -
  let ?d = "Dataset_ctor 3 False False (vector_input elements3)"
  let ?r = "\<lparr>r_status = Error INVALID_ARGUMENT
             [Str ''Cannot batch tensors with different shapes in component '',
              Num 0, Str ''. First element had shape '',
              DebugString [2, 3], Str '' and element '', Num 2,
              Str '' had shape '', DebugString [2, 4], Str ''.''],
         r_out_tensors =
           [\<lparr>dtype = 1, shape = [3, 2, 3],
             flat = [1, 2, 3, 4, 5, 6, 7, 8, 9, 10, 11, 12, 0, 0, 0, 0, 0, 0]\<rparr>],
         r_end_of_sequence = False, r_input_impl = Some (3::nat), r_unjoined = []\<rparr>"
  have call: "GetNextInternal ?d copy_ok reserve_ok ctx_ok [] (Some 0) = Returns ?r"
    by code_simp
  have f: "r_status ?r \<noteq> OK" by simp
  have p: "pull (vector_input elements3) ctx_ok 3 0 0 [] = Some (OK, elements3, False, Some 3)"
    by code_simp
  from error_return_state[OF call f] have "emit ?r = Failure" by blast
  with call p show ?thesis by simp
qed



section \<open>Checkpoints\<close>

text \<open>
  C7. Let the input iterator's own save and restore be sound (restoring what it has just
  saved leaves it in the state it saved, whatever state it was in) and let it keep off
  this iterator's key, which the writer does not hold before. Then a successful save
  writes the sentinel under that key when \<^verbatim>\<open>input_impl_\<close> is absent, and restoring
  that checkpoint resets \<^verbatim>\<open>input_impl_\<close> whatever it was; otherwise the save is the
  input iterator's own, and restoring that checkpoint into an iterator whose
  \<^verbatim>\<open>input_impl_\<close> is present leaves it in the state saved. So restoring at once
  succeeds and leaves \<^verbatim>\<open>input_impl_\<close> as it was, and any later calls return what they
  would have returned. In general, restore resets \<^verbatim>\<open>input_impl_\<close> exactly when the
  reader contains the key, and otherwise is the input iterator's restore, whose status
  it returns.
\<close>

theorem save_then_restore:
  assumes "\<And>s w w' s0. input_Save (input d) s w = (OK, w') \<Longrightarrow>
             input_Restore (input d) ctx w' s0 = (OK, s)"
    and "\<And>s w st w'. input_Save (input d) s w = (st, w') \<Longrightarrow>
             w' (full_name prefix kInputImplEmpty) = w (full_name prefix kInputImplEmpty)"
    and "w0 (full_name prefix kInputImplEmpty) = None"
    and "SaveInternal d prefix w0 impl = (OK, w)"
  shows "(case impl of
            None \<Rightarrow> w = w0(full_name prefix kInputImplEmpty \<mapsto> ScalarStr []) \<and>
                    (\<forall>cur. RestoreInternal d prefix ctx w cur = Some (OK, None))
          | Some s \<Rightarrow> input_Save (input d) s w0 = (OK, w) \<and>
                    (\<forall>s0. RestoreInternal d prefix ctx w (Some s0) = Some (OK, Some s))) \<and>
         RestoreInternal d prefix ctx w impl = Some (OK, impl) \<and>
         (\<forall>cur impl'. RestoreInternal d prefix ctx w cur = Some (OK, impl') \<longrightarrow>
            impl' = impl \<and>
            (\<forall>chk rsv ctxs. GetNext_calls d chk rsv ctxs impl' =
                             GetNext_calls d chk rsv ctxs impl)) \<and>
         (\<forall>reader cur. Contains reader (full_name prefix kInputImplEmpty) \<longrightarrow>
            RestoreInternal d prefix ctx reader cur = Some (OK, None)) \<and>
         (\<forall>reader s0. \<not> Contains reader (full_name prefix kInputImplEmpty) \<longrightarrow>
            RestoreInternal d prefix ctx reader (Some s0) =
              Some (fst (input_Restore (input d) ctx reader s0),
                    Some (snd (input_Restore (input d) ctx reader s0))))"
proof -
  let ?key = "full_name prefix kInputImplEmpty"
  have sent: "\<forall>reader cur. Contains reader ?key \<longrightarrow>
                RestoreInternal d prefix ctx reader cur = Some (OK, None)"
    by (simp add: RestoreInternal_def)
  have dele: "\<forall>reader s0. \<not> Contains reader ?key \<longrightarrow>
            RestoreInternal d prefix ctx reader (Some s0) =
              Some (fst (input_Restore (input d) ctx reader s0),
                    Some (snd (input_Restore (input d) ctx reader s0)))"
    by (simp add: RestoreInternal_def split: prod.splits)
  show ?thesis
  proof (cases impl)
    case None
    with assms(4) have w: "w = w0(?key \<mapsto> ScalarStr [])"
      by (simp add: SaveInternal_def WriteScalar_def)
    then have c: "Contains w ?key" by (simp add: Contains_def)
    with sent have r: "\<forall>cur. RestoreInternal d prefix ctx w cur = Some (OK, None)" by blast
    with None w sent dele show ?thesis by simp
  next
    case (Some s)
    with assms(4) have sv: "input_Save (input d) s w0 = (OK, w)"
      by (simp add: SaveInternal_def)
    from assms(2)[OF sv] assms(3) have nc: "\<not> Contains w ?key" by (simp add: Contains_def)
    have r: "RestoreInternal d prefix ctx w (Some s0) = Some (OK, Some s)" for s0
      using nc dele assms(1)[OF sv, of s0] by simp
    have u: "RestoreInternal d prefix ctx w None = None"
      using nc by (simp add: RestoreInternal_def)
    have a: "impl' = impl" if "RestoreInternal d prefix ctx w cur = Some (OK, impl')" for cur impl'
      using that r u Some by (cases cur) auto
    from Some sv r a sent dele show ?thesis by auto
  qed
qed

text \<open>An iterator at position 3 of seven elements, saved into an empty writer and
  restored into an iterator at position 0; and an exhausted one, restored into an
  iterator at position 5.\<close>

theorem save_then_restore_witness:
  "RestoreInternal (Dataset_ctor 3 False False (vector_input elements7)) ''Iterator::Batch''
     ctx_ok
     (snd (SaveInternal (Dataset_ctor 3 False False (vector_input elements7))
            ''Iterator::Batch'' Map.empty (Some 3)))
     (Some 0) = Some (OK, Some 3) \<and>
   RestoreInternal (Dataset_ctor 3 False False (vector_input elements7)) ''Iterator::Batch''
     ctx_ok
     (snd (SaveInternal (Dataset_ctor 3 False False (vector_input elements7))
            ''Iterator::Batch'' Map.empty None))
     (Some 5) = Some (OK, None)"
proof -
  let ?d = "Dataset_ctor 3 False False (vector_input elements7)"
  let ?p = "''Iterator::Batch''"
  have i: "input ?d = vector_input elements7" by (simp add: Dataset_ctor_def)
  have c: "\<And>s w w' s0. input_Save (input ?d) s w = (OK, w') \<Longrightarrow>
             input_Restore (input ?d) ctx_ok w' s0 = (OK, s)"
    unfolding i by (auto simp: vector_input_def)
  have k: "\<And>s w st w'. input_Save (input ?d) s w = (st, w') \<Longrightarrow>
             w' (full_name ?p kInputImplEmpty) = w (full_name ?p kInputImplEmpty)"
    unfolding i by (auto simp: vector_input_def full_name_def kInputImplEmpty_def)
  have e: "Map.empty (full_name ?p kInputImplEmpty) = (None :: CkptValue option)" by simp
  obtain w1 where s1: "SaveInternal ?d ?p Map.empty (Some 3) = (OK, w1)"
    unfolding SaveInternal_def i by (simp add: vector_input_def)
  obtain w2 where s2: "SaveInternal ?d ?p Map.empty None = (OK, w2)"
    by (simp add: SaveInternal_def WriteScalar_def)
  have "(case Some (3::nat) of
            None \<Rightarrow> w1 = Map.empty(full_name ?p kInputImplEmpty \<mapsto> ScalarStr []) \<and>
                    (\<forall>cur. RestoreInternal ?d ?p ctx_ok w1 cur = Some (OK, None))
          | Some s \<Rightarrow> input_Save (input ?d) s Map.empty = (OK, w1) \<and>
                    (\<forall>s0. RestoreInternal ?d ?p ctx_ok w1 (Some s0) = Some (OK, Some s)))"
    apply (rule conjunct1[OF save_then_restore[where d = ?d and ctx = ctx_ok and prefix = ?p
              and ?w0.0 = Map.empty and impl = "Some 3" and w = w1]])
       apply (rule c, assumption)
      apply (rule k, assumption)
     apply (rule e)
    apply (rule s1)
    done
  then have "\<forall>s0. RestoreInternal ?d ?p ctx_ok w1 (Some s0) = Some (OK, Some 3)"
    by (simp only: option.case) blast
  then have r1: "RestoreInternal ?d ?p ctx_ok w1 (Some 0) = Some (OK, Some 3)" by blast
  have "(case (None :: nat option) of
            None \<Rightarrow> w2 = Map.empty(full_name ?p kInputImplEmpty \<mapsto> ScalarStr []) \<and>
                    (\<forall>cur. RestoreInternal ?d ?p ctx_ok w2 cur = Some (OK, None))
          | Some s \<Rightarrow> input_Save (input ?d) s Map.empty = (OK, w2) \<and>
                    (\<forall>s0. RestoreInternal ?d ?p ctx_ok w2 (Some s0) = Some (OK, Some s)))"
    apply (rule conjunct1[OF save_then_restore[where d = ?d and ctx = ctx_ok and prefix = ?p
              and ?w0.0 = Map.empty and impl = None and w = w2]])
       apply (rule c, assumption)
      apply (rule k, assumption)
     apply (rule e)
    apply (rule s2)
    done
  then have "\<forall>cur. RestoreInternal ?d ?p ctx_ok w2 cur = Some (OK, None)"
    by (simp only: option.case) blast
  then have r2: "RestoreInternal ?d ?p ctx_ok w2 (Some 5) = Some (OK, None)" by blast
  from r1 r2 s1 s2 show ?thesis by simp
qed

end
